theory Spec2Isabelle
  imports Complex_Main "HOL-Library.Monad_Syntax" "HOL-Library.Signed_Division"
begin

section \<open>The distributed block vector of \<^verbatim>\<open>src/bpmat/BVec.c\<close>\<close>

text \<open>
  The embedding follows the C++ source function by function.

  \<^item> \<^verbatim>\<open>TacsScalar\<close> (a \<^verbatim>\<open>double\<close> in the real build) is \<^typ>\<open>real\<close>: arithmetic is
    exact, rounding is outside the model. The complex build differs in \<^verbatim>\<open>norm\<close>,
    \<^verbatim>\<open>dot\<close> and \<^verbatim>\<open>mdot\<close> only; its \<^verbatim>\<open>norm\<close> and \<^verbatim>\<open>dot\<close> are modelled on
    \<^typ>\<open>complex\<close>.
  \<^item> \<^verbatim>\<open>int\<close> is \<^typ>\<open>int\<close>. Every index that is used is checked against the length of
    the array it addresses. The bounds of the skip loops of \<^verbatim>\<open>setRand\<close> are products
    that address no array: they are checked against the range of a 32-bit \<^verbatim>\<open>int\<close>,
    since signed overflow is undefined in C++. The sizes that the constructors and
    \<^verbatim>\<open>readFromFile\<close> compute are not bounded in the model.
  \<^item> A heap array is a list. An access outside the array, a dereference of a null
    pointer and an allocation of negative length are undefined behaviour in the source;
    here they are the value \<open>None\<close>, so every operation returns an option.
  \<^item> A nullable pointer field is an option.
  \<^item> The flop counter \<^verbatim>\<open>TacsAddFlops\<close> and the diagnostics printed to
    \<^verbatim>\<open>stderr\<close> are not part of the vector and are left out.
\<close>

subsection \<open>Arrays and loops\<close>

definition rd :: "'a list \<Rightarrow> int \<Rightarrow> 'a option" where
  "rd a i = (if 0 \<le> i \<and> i < int (length a) then Some (a ! nat i) else None)"

definition wr :: "'a list \<Rightarrow> int \<Rightarrow> 'a \<Rightarrow> 'a list option" where
  "wr a i v = (if 0 \<le> i \<and> i < int (length a) then Some (a[nat i := v]) else None)"

text \<open>\<^verbatim>\<open>new TacsScalar[n]\<close> followed by \<^verbatim>\<open>memset(p, 0, n*sizeof(TacsScalar))\<close>.\<close>

definition new_zeroed :: "int \<Rightarrow> real list option" where
  "new_zeroed n = (if 0 \<le> n then Some (replicate (nat n) 0) else None)"

text \<open>\<^verbatim>\<open>memset(p, 0, n*sizeof(TacsScalar))\<close> on an array that is already allocated.\<close>

definition memset_zero :: "real list \<Rightarrow> int \<Rightarrow> real list option" where
  "memset_zero a n =
     (if 0 \<le> n \<and> n \<le> int (length a) then Some (replicate (nat n) 0 @ drop (nat n) a)
      else None)"

text \<open>
  \<^verbatim>\<open>for ( int i = i0; i < n; i++ ){ body }\<close> on a state \<open>s\<close>; the body may be
  undefined, and then so is the loop.
\<close>

function for_loop :: "int \<Rightarrow> int \<Rightarrow> (int \<Rightarrow> 's \<Rightarrow> 's option) \<Rightarrow> 's \<Rightarrow> 's option" where
  "for_loop i n body s =
     (if i < n then
        (case body i s of None \<Rightarrow> None | Some s' \<Rightarrow> for_loop (i + 1) n body s')
      else Some s)"
  by pat_completeness auto
termination
  by (relation "measure (\<lambda>(i, n, body, s). nat (n - i))") auto

declare for_loop.simps [simp del]

subsection \<open>The collaborators\<close>

text \<open>
  The classes below are declared in headers that are not part of the source file; only
  what \<^verbatim>\<open>BVec.c\<close> reads from them is kept. The communicator is its rank and size.
\<close>

record MPI_Comm =
  comm_rank :: int
  comm_size :: int

text \<open>
  \<^verbatim>\<open>TACSVarMap\<close>: \<^verbatim>\<open>getMPIComm\<close>, \<^verbatim>\<open>getDim\<close> (the number of owned nodes) and
  \<^verbatim>\<open>getOwnerRange\<close>.
\<close>

record TACSVarMap =
  map_comm :: MPI_Comm
  map_dim :: int
  owner_range :: "int list"

text \<open>\<^verbatim>\<open>TACSBcMap\<close>: the five arrays that \<^verbatim>\<open>getBCs\<close> hands out, and \<^verbatim>\<open>nbcs\<close>.\<close>

record TACSBcMap =
  nbcs :: int
  bc_local :: "int list"
  bc_global :: "int list"
  bc_var_ptr :: "int list"
  bc_vars :: "int list"
  bc_values :: "real list"

text \<open>\<^verbatim>\<open>TACSBVecIndices\<close>: only \<^verbatim>\<open>findIndex\<close> is called, and it is a parameter.\<close>

record TACSBVecIndices =
  findIndex :: "int \<Rightarrow> int"

text \<open>\<^verbatim>\<open>TACSBVecDepNodes\<close>: what \<^verbatim>\<open>getDepNodes\<close> returns.\<close>

record TACSBVecDepNodes =
  ndep :: int
  dep_ptr :: "int list"
  dep_conn :: "int list"
  dep_weights :: "real list"

datatype TACSBVecOperation = INSERT_VALUES | ADD_VALUES

text \<open>
  \<^verbatim>\<open>TACSBVecDistribute\<close>: the plan of the exchange with the other ranks. Its four
  operations are parameters. Each takes the context and the two arrays and writes
  through the pointers it is given, so it cannot change the length of an array: it
  returns the new context and, for each array, the new contents by position.
  \<^verbatim>\<open>beginReverse\<close> and \<^verbatim>\<open>endReverse\<close> take the ghost array first, as in the source.
\<close>

record 'c TACSBVecDistribute =
  getIndices :: TACSBVecIndices
  getDim :: int
  createCtx :: "int \<Rightarrow> 'c"
  beginForward :: "'c \<Rightarrow> real list \<Rightarrow> real list \<Rightarrow> 'c \<times> (nat \<Rightarrow> real) \<times> (nat \<Rightarrow> real)"
  endForward :: "'c \<Rightarrow> real list \<Rightarrow> real list \<Rightarrow> 'c \<times> (nat \<Rightarrow> real) \<times> (nat \<Rightarrow> real)"
  beginReverse ::
    "'c \<Rightarrow> real list \<Rightarrow> real list \<Rightarrow> TACSBVecOperation \<Rightarrow> 'c \<times> (nat \<Rightarrow> real) \<times> (nat \<Rightarrow> real)"
  endReverse ::
    "'c \<Rightarrow> real list \<Rightarrow> real list \<Rightarrow> TACSBVecOperation \<Rightarrow> 'c \<times> (nat \<Rightarrow> real) \<times> (nat \<Rightarrow> real)"

definition in_place :: "real list \<Rightarrow> (nat \<Rightarrow> real) \<Rightarrow> real list" where
  "in_place a f = map f [0..<length a]"

subsection \<open>The vector\<close>

text \<open>
  The fields of \<^verbatim>\<open>TACSBVec\<close>. The source's \<^verbatim>\<open>size\<close> and \<^verbatim>\<open>x\<close> are \<open>size_loc\<close> and
  \<open>x_loc\<close> here (the owned values, the spec's \<open>local\<close>); \<open>x_ext\<close> is the ghost array
  and \<open>x_dep\<close> the array of the dependent nodes.
\<close>

record 'c TACSBVec =
  var_map :: "TACSVarMap option"
  comm :: MPI_Comm
  bcs :: "TACSBcMap option"
  bsize :: int
  size_loc :: int
  x_loc :: "real list"
  ext_dist :: "'c TACSBVecDistribute option"
  ext_indices :: "TACSBVecIndices option"
  ext_size :: int
  x_ext :: "real list option"
  ext_ctx :: "'c option"
  dep_nodes :: "TACSBVecDepNodes option"
  dep_size :: int
  x_dep :: "real list option"

text \<open>The constructor \<^verbatim>\<open>TACSBVec(map, bsize, bcs, ext_dist, dep_nodes)\<close>.\<close>

definition TACSBVec_new ::
  "TACSVarMap \<Rightarrow> int \<Rightarrow> TACSBcMap option \<Rightarrow> 'c TACSBVecDistribute option \<Rightarrow>
   TACSBVecDepNodes option \<Rightarrow> 'c TACSBVec option" where
  "TACSBVec_new vmap b bc edist deps =
     do {
       let sz = b * map_dim vmap;
       xs \<leftarrow> new_zeroed sz;
       (e_ind, e_size, e_x, e_ctx) \<leftarrow>
         (case edist of
            Some d \<Rightarrow>
              do {
                g \<leftarrow> new_zeroed (b * getDim d);
                Some (Some (getIndices d), b * getDim d, Some g, Some (createCtx d b))
              }
          | None \<Rightarrow> Some (None, 0, None, None));
       (d_size, d_x) \<leftarrow>
         (case deps of
            Some dn \<Rightarrow>
              do {
                z \<leftarrow> new_zeroed (b * ndep dn);
                Some (b * ndep dn, Some z)
              }
          | None \<Rightarrow> Some (0, None));
       Some \<lparr> var_map = Some vmap, comm = map_comm vmap, bcs = bc, bsize = b,
              size_loc = sz, x_loc = xs, ext_dist = edist, ext_indices = e_ind,
              ext_size = e_size, x_ext = e_x, ext_ctx = e_ctx, dep_nodes = deps,
              dep_size = d_size, x_dep = d_x \<rparr>
     }"

text \<open>The constructor \<^verbatim>\<open>TACSBVec(comm, size, bsize)\<close>, without a variable map.\<close>

definition TACSBVec_new_comm :: "MPI_Comm \<Rightarrow> int \<Rightarrow> int \<Rightarrow> 'c TACSBVec option" where
  "TACSBVec_new_comm cm sz b =
     do {
       xs \<leftarrow> new_zeroed sz;
       Some \<lparr> var_map = None, comm = cm, bcs = None, bsize = b,
              size_loc = sz, x_loc = xs, ext_dist = None, ext_indices = None,
              ext_size = 0, x_ext = None, ext_ctx = None, dep_nodes = None,
              dep_size = 0, x_dep = None \<rparr>
     }"

text \<open>
  The allocation invariant: every array has the length its size field records, and the
  arrays that belong to the plan and to the dependent nodes exist when these are set.
  Both constructors establish it and no operation changes a length or a size.
\<close>

definition alloc_ok :: "'c TACSBVec \<Rightarrow> bool" where
  "alloc_ok v \<longleftrightarrow>
     int (length (x_loc v)) = size_loc v \<and>
     (case x_ext v of None \<Rightarrow> True | Some g \<Rightarrow> int (length g) = ext_size v) \<and>
     (case x_dep v of None \<Rightarrow> True | Some z \<Rightarrow> int (length z) = dep_size v) \<and>
     (ext_dist v \<noteq> None \<longrightarrow> x_ext v \<noteq> None \<and> ext_ctx v \<noteq> None \<and> ext_indices v \<noteq> None) \<and>
     (dep_nodes v \<noteq> None \<longrightarrow> x_dep v \<noteq> None)"

text \<open>\<^verbatim>\<open>zeroEntries\<close>.\<close>

definition zeroEntries :: "'c TACSBVec \<Rightarrow> 'c TACSBVec option" where
  "zeroEntries v =
     do {
       xs \<leftarrow> memset_zero (x_loc v) (size_loc v);
       g \<leftarrow> (case x_ext v of
               Some g0 \<Rightarrow> do { g1 \<leftarrow> memset_zero g0 (ext_size v); Some (Some g1) }
             | None \<Rightarrow> Some None);
       z \<leftarrow> (case x_dep v of
               Some z0 \<Rightarrow> do { z1 \<leftarrow> memset_zero z0 (dep_size v); Some (Some z1) }
             | None \<Rightarrow> Some None);
       Some (v\<lparr> x_loc := xs, x_ext := g, x_dep := z \<rparr>)
     }"

text \<open>
  A call of one of the plan's reverse operations on the vector's context and arrays. The
  source passes \<^verbatim>\<open>ext_ctx\<close> and \<^verbatim>\<open>x_ext\<close>, which are allocated whenever \<^verbatim>\<open>ext_dist\<close>
  is set.
\<close>

definition call_reverse ::
  "('c \<Rightarrow> real list \<Rightarrow> real list \<Rightarrow> TACSBVecOperation \<Rightarrow> 'c \<times> (nat \<Rightarrow> real) \<times> (nat \<Rightarrow> real)) \<Rightarrow>
   TACSBVecOperation \<Rightarrow> 'c TACSBVec \<Rightarrow> 'c TACSBVec option" where
  "call_reverse f op v =
     (case (ext_ctx v, x_ext v) of
        (Some c, Some g) \<Rightarrow>
          (case f c g (x_loc v) op of
             (c', g', xs') \<Rightarrow>
               Some (v\<lparr> ext_ctx := Some c', x_ext := Some (in_place g g'),
                        x_loc := in_place (x_loc v) xs' \<rparr>))
      | _ \<Rightarrow> None)"

definition call_forward ::
  "('c \<Rightarrow> real list \<Rightarrow> real list \<Rightarrow> 'c \<times> (nat \<Rightarrow> real) \<times> (nat \<Rightarrow> real)) \<Rightarrow>
   'c TACSBVec \<Rightarrow> 'c TACSBVec option" where
  "call_forward f v =
     (case (ext_ctx v, x_ext v) of
        (Some c, Some g) \<Rightarrow>
          (case f c (x_loc v) g of
             (c', xs', g') \<Rightarrow>
               Some (v\<lparr> ext_ctx := Some c', x_ext := Some (in_place g g'),
                        x_loc := in_place (x_loc v) xs' \<rparr>))
      | _ \<Rightarrow> None)"

text \<open>\<^verbatim>\<open>endSetValues\<close>: complete the reverse exchange, then zero the ghost array.\<close>

definition endSetValues :: "TACSBVecOperation \<Rightarrow> 'c TACSBVec \<Rightarrow> 'c TACSBVec option" where
  "endSetValues op v =
     do {
       v1 \<leftarrow> (case ext_dist v of
                Some d \<Rightarrow> call_reverse (endReverse d) op v
              | None \<Rightarrow> Some v);
       (case x_ext v1 of
          Some g \<Rightarrow> do { g1 \<leftarrow> memset_zero g (ext_size v1); Some (v1\<lparr> x_ext := Some g1 \<rparr>) }
        | None \<Rightarrow> Some v1)
     }"

subsection \<open>Algebra on the owned values\<close>

text \<open>
  Modelled from the spec: the level-1 BLAS routines \<^verbatim>\<open>BLASnrm2\<close>, \<^verbatim>\<open>BLASdot\<close>,
  \<^verbatim>\<open>BLASaxpy\<close> and \<^verbatim>\<open>BLAScopy\<close> are declared in \<^verbatim>\<open>tacslapack.h\<close>, which is missing;
  the source calls them with stride one on the first \<open>n\<close> entries. The spec gives the
  2-norm, the sum of products, \<open>\<alpha>\<cdot>x + y\<close> and the copy. Reading or writing \<open>n\<close>
  entries of a shorter array is undefined.
\<close>

definition BLASnrm2 :: "int \<Rightarrow> real list \<Rightarrow> real option" where
  "BLASnrm2 n a =
     (if n \<le> int (length a) then Some (sqrt (\<Sum>e\<leftarrow>take (nat n) a. e * e)) else None)"

definition BLASdot :: "int \<Rightarrow> real list \<Rightarrow> real list \<Rightarrow> real option" where
  "BLASdot n a b =
     (if n \<le> int (length a) \<and> n \<le> int (length b)
      then Some (\<Sum>(e, f)\<leftarrow>zip (take (nat n) a) (take (nat n) b). e * f) else None)"

definition BLASaxpy :: "int \<Rightarrow> real \<Rightarrow> real list \<Rightarrow> real list \<Rightarrow> real list option" where
  "BLASaxpy n alpha a b =
     (if n \<le> int (length a) \<and> n \<le> int (length b)
      then Some (map (\<lambda>(e, f). alpha * e + f) (zip (take (nat n) a) (take (nat n) b)) @
                 drop (nat n) b)
      else None)"

definition BLAScopy :: "int \<Rightarrow> real list \<Rightarrow> real list \<Rightarrow> real list option" where
  "BLAScopy n a b =
     (if n \<le> int (length a) \<and> n \<le> int (length b)
      then Some (take (nat n) a @ drop (nat n) b) else None)"

text \<open>
  Modelled from the spec: \<^verbatim>\<open>MPI_Allreduce\<close> with \<^verbatim>\<open>MPI_SUM\<close> hands every rank the sum of
  the values the ranks of the communicator contribute.
\<close>

definition MPI_Allreduce_SUM :: "'a::comm_monoid_add list \<Rightarrow> 'a" where
  "MPI_Allreduce_SUM contributions = sum_list contributions"

text \<open>
  \<^verbatim>\<open>norm\<close>, real build. \<open>norm_res\<close> is what one rank computes before the reduction (the
  variable \<^verbatim>\<open>res\<close>); \<open>norm_all\<close> is the collective call on the pieces of one vector,
  one piece per rank in rank order, and its value is returned on every rank.
\<close>

definition norm_res :: "'c TACSBVec \<Rightarrow> real option" where
  "norm_res v = do { res \<leftarrow> BLASnrm2 (size_loc v) (x_loc v); Some (res * res) }"

definition norm_all :: "'c TACSBVec list \<Rightarrow> real option" where
  "norm_all vs = do { rs \<leftarrow> those (map norm_res vs); Some (sqrt (MPI_Allreduce_SUM rs)) }"

text \<open>
  The peer of a binary operation is a pointer to a \<^verbatim>\<open>TACSVec\<close>, the abstract base
  class: a block vector or an object of some other class. A pointer is \<open>None\<close> when it
  is null. \<^verbatim>\<open>dynamic_cast<TACSBVec*>\<close> yields null on a null pointer and on another
  class.
\<close>

datatype 'c TACSVec = BVec "'c TACSBVec" | OtherVec

definition dynamic_cast_BVec :: "'c TACSVec option \<Rightarrow> 'c TACSBVec option" where
  "dynamic_cast_BVec tvec = (case tvec of Some (BVec vec) \<Rightarrow> Some vec | _ \<Rightarrow> None)"

text \<open>
  \<^verbatim>\<open>dot\<close>, real build. On one rank the call either returns at once (\<open>Inl\<close> of the value
  returned: the size error and the type error) or contributes \<^verbatim>\<open>res\<close> to the reduction
  (\<open>Inr\<close>). \<open>dot_collect\<close> is the reduction as the ranks see it: a rank that
  contributed gets the sum, and waits forever (\<open>None\<close>) when some rank did not enter the
  reduction. \<open>dot_all\<close> is the collective call.
\<close>

definition dot_res :: "'c TACSBVec \<Rightarrow> 'c TACSVec option \<Rightarrow> (real + real) option" where
  "dot_res v tvec =
     (case dynamic_cast_BVec tvec of
        Some vec \<Rightarrow>
          if size_loc vec \<noteq> size_loc v then Some (Inl 0)
          else do { res \<leftarrow> BLASdot (size_loc v) (x_loc v) (x_loc vec); Some (Inr res) }
      | None \<Rightarrow> Some (Inl 0))"

definition dot_collect :: "('a + 'a) list \<Rightarrow> 'a::comm_monoid_add option list" where
  "dot_collect rs =
     (let sum = MPI_Allreduce_SUM (concat (map (\<lambda>r. case r of Inl _ \<Rightarrow> [] | Inr res \<Rightarrow> [res]) rs))
      in map (\<lambda>r. case r of
                    Inl ret \<Rightarrow> Some ret
                  | Inr _ \<Rightarrow> if list_ex isl rs then None else Some sum) rs)"

definition dot_all ::
  "'c TACSBVec list \<Rightarrow> 'c TACSVec option list \<Rightarrow> real option list option" where
  "dot_all vs tvecs =
     do {
       rs \<leftarrow> those (map (\<lambda>(v, tvec). dot_res v tvec) (zip vs tvecs));
       Some (dot_collect rs)
     }"

text \<open>\<^verbatim>\<open>axpy\<close>: \<open>x \<leftarrow> \<alpha>\<cdot>vec.x + x\<close>.\<close>

definition axpy :: "real \<Rightarrow> 'c TACSVec option \<Rightarrow> 'c TACSBVec \<Rightarrow> 'c TACSBVec option" where
  "axpy alpha tvec v =
     (case dynamic_cast_BVec tvec of
        Some vec \<Rightarrow>
          if size_loc vec \<noteq> size_loc v then Some v
          else do { xs \<leftarrow> BLASaxpy (size_loc v) alpha (x_loc vec) (x_loc v);
                    Some (v\<lparr> x_loc := xs \<rparr>) }
      | None \<Rightarrow> Some v)"

text \<open>
  \<^verbatim>\<open>axpby\<close>: \<open>x \<leftarrow> \<alpha>\<cdot>vec.x + \<beta>\<cdot>x\<close>, by a loop over the first \<^verbatim>\<open>size % 4\<close> entries and a
  loop unrolled four times over the rest. The pointers \<^verbatim>\<open>y\<close> and \<^verbatim>\<open>z\<close> stay at
  \<^verbatim>\<open>x + i\<close> and \<^verbatim>\<open>vec->x + i\<close>. The remainder of C++ truncates towards zero, and
  the first loop leaves \<^verbatim>\<open>i\<close> at the larger of \<open>0\<close> and the remainder.
\<close>

definition axpby_at :: "real \<Rightarrow> real \<Rightarrow> real list \<Rightarrow> int \<Rightarrow> real list \<Rightarrow> real list option" where
  "axpby_at alpha beta z i y =
     do { yi \<leftarrow> rd y i; zi \<leftarrow> rd z i; wr y i (beta * yi + alpha * zi) }"

function for_loop4 :: "int \<Rightarrow> int \<Rightarrow> (int \<Rightarrow> 's \<Rightarrow> 's option) \<Rightarrow> 's \<Rightarrow> 's option" where
  "for_loop4 i n body s =
     (if i < n then
        (case body i s of None \<Rightarrow> None | Some s' \<Rightarrow> for_loop4 (i + 4) n body s')
      else Some s)"
  by pat_completeness auto
termination
  by (relation "measure (\<lambda>(i, n, body, s). nat (n - i))") auto

declare for_loop4.simps [simp del]

definition axpby ::
  "real \<Rightarrow> real \<Rightarrow> 'c TACSVec option \<Rightarrow> 'c TACSBVec \<Rightarrow> 'c TACSBVec option" where
  "axpby alpha beta tvec v =
     (case dynamic_cast_BVec tvec of
        Some vec \<Rightarrow>
          if size_loc vec \<noteq> size_loc v then Some v
          else
            do {
              let rem = size_loc v smod 4;
              y1 \<leftarrow> for_loop 0 rem (axpby_at alpha beta (x_loc vec)) (x_loc v);
              y2 \<leftarrow> for_loop4 (max 0 rem) (size_loc v)
                      (\<lambda>i y. do {
                         ya \<leftarrow> axpby_at alpha beta (x_loc vec) i y;
                         yb \<leftarrow> axpby_at alpha beta (x_loc vec) (i + 1) ya;
                         yc \<leftarrow> axpby_at alpha beta (x_loc vec) (i + 2) yb;
                         axpby_at alpha beta (x_loc vec) (i + 3) yc
                       }) y1;
              Some (v\<lparr> x_loc := y2 \<rparr>)
            }
      | None \<Rightarrow> Some v)"

text \<open>\<^verbatim>\<open>copyValues\<close>: \<open>x \<leftarrow> vec.x\<close>.\<close>

definition copyValues :: "'c TACSVec option \<Rightarrow> 'c TACSBVec \<Rightarrow> 'c TACSBVec option" where
  "copyValues tvec v =
     (case dynamic_cast_BVec tvec of
        Some vec \<Rightarrow>
          if size_loc vec \<noteq> size_loc v then Some v
          else do { xs \<leftarrow> BLAScopy (size_loc v) (x_loc vec) (x_loc v);
                    Some (v\<lparr> x_loc := xs \<rparr>) }
      | None \<Rightarrow> Some v)"

text \<open>
  \<^verbatim>\<open>norm\<close> and \<^verbatim>\<open>dot\<close>, complex build (\<^verbatim>\<open>TACS_USE_COMPLEX\<close>): \<^verbatim>\<open>TacsScalar\<close> is a
  complex number, the products are not conjugated, and the sum of one rank is a loop over
  the first \<^verbatim>\<open>size % 4\<close> entries followed by a loop unrolled four times. Only \<^verbatim>\<open>size\<close>
  and \<^verbatim>\<open>x\<close> matter here, so the piece of a rank is the pair of them, and the peer of
  \<^verbatim>\<open>dot\<close> is a block vector.
\<close>

definition norm_loop_cx :: "int \<Rightarrow> complex list \<Rightarrow> complex option" where
  "norm_loop_cx sz y =
     do {
       let rem = sz smod 4;
       res \<leftarrow> for_loop 0 rem (\<lambda>i res. do { a \<leftarrow> rd y i; Some (res + a * a) }) 0;
       for_loop4 (max 0 rem) sz
         (\<lambda>i res. do {
            a \<leftarrow> rd y i; b \<leftarrow> rd y (i + 1); c \<leftarrow> rd y (i + 2); d \<leftarrow> rd y (i + 3);
            Some (res + (a * a + b * b + c * c + d * d))
          }) res
     }"

definition norm_all_cx :: "(int \<times> complex list) list \<Rightarrow> complex option" where
  "norm_all_cx cs =
     do {
       rs \<leftarrow> those (map (\<lambda>(sz, y). norm_loop_cx sz y) cs);
       Some (csqrt (MPI_Allreduce_SUM rs))
     }"

definition dot_loop_cx :: "int \<Rightarrow> complex list \<Rightarrow> complex list \<Rightarrow> complex option" where
  "dot_loop_cx sz y z =
     do {
       let rem = sz smod 4;
       res \<leftarrow> for_loop 0 rem
                (\<lambda>i res. do { a \<leftarrow> rd y i; a' \<leftarrow> rd z i; Some (res + a * a') }) 0;
       for_loop4 (max 0 rem) sz
         (\<lambda>i res. do {
            a \<leftarrow> rd y i; a' \<leftarrow> rd z i;
            b \<leftarrow> rd y (i + 1); b' \<leftarrow> rd z (i + 1);
            c \<leftarrow> rd y (i + 2); c' \<leftarrow> rd z (i + 2);
            d \<leftarrow> rd y (i + 3); d' \<leftarrow> rd z (i + 3);
            Some (res + (a * a' + b * b' + c * c' + d * d'))
          }) res
     }"

definition dot_res_cx ::
  "int \<times> complex list \<Rightarrow> int \<times> complex list \<Rightarrow> (complex + complex) option" where
  "dot_res_cx this vec =
     (case (this, vec) of
        ((sz, y), (vec_sz, z)) \<Rightarrow>
          if vec_sz \<noteq> sz then Some (Inl 0)
          else do { res \<leftarrow> dot_loop_cx sz y z; Some (Inr res) })"

definition dot_all_cx ::
  "(int \<times> complex list) list \<Rightarrow> (int \<times> complex list) list \<Rightarrow> complex option list option" where
  "dot_all_cx cs vecs =
     do {
       rs \<leftarrow> those (map (\<lambda>(this, vec). dot_res_cx this vec) (zip cs vecs));
       Some (dot_collect rs)
     }"

text \<open>
  The objects live in a store that maps an address to the object at it, so that a
  binary operation can be judged on both objects: \<open>this\<close> must be a block vector, the
  result of the method is written back at \<open>this\<close>, and nothing else is written.
\<close>

type_synonym 'c store = "nat \<Rightarrow> 'c TACSVec option"

definition call_method ::
  "('c TACSVec option \<Rightarrow> 'c TACSBVec \<Rightarrow> 'c TACSBVec option) \<Rightarrow> nat \<Rightarrow> nat \<Rightarrow> 'c store \<Rightarrow>
   'c store option" where
  "call_method f this tvec h =
     (case h this of
        Some (BVec v) \<Rightarrow> do { v' \<leftarrow> f (h tvec) v; Some (h(this \<mapsto> BVec v')) }
      | _ \<Rightarrow> None)"

definition dot_method :: "nat \<Rightarrow> nat \<Rightarrow> 'c store \<Rightarrow> ('c store \<times> (real + real)) option" where
  "dot_method this tvec h =
     (case h this of
        Some (BVec v) \<Rightarrow> do { r \<leftarrow> dot_res v (h tvec); Some (h, r) }
      | _ \<Rightarrow> None)"

subsection \<open>Random values\<close>

text \<open>
  \<^verbatim>\<open>rand()\<close> reads and advances the generator of the C library, a state that is not
  part of the vector. The generator is a parameter \<open>rand\<close>, from a state to the value
  drawn and the next state, and so is \<^verbatim>\<open>RAND_MAX\<close>.
\<close>

definition rand_scalar :: "real \<Rightarrow> real \<Rightarrow> int \<Rightarrow> int \<Rightarrow> real" where
  "rand_scalar lower upper rand_max r =
     lower + ((upper - lower) * of_int r) / (1.0 * of_int rand_max)"

text \<open>The loop \<^verbatim>\<open>for ( int i = 0; i < size; i++ ){ x[i] = lower + ...rand()... }\<close>.\<close>

definition fill_rand ::
  "('g \<Rightarrow> int \<times> 'g) \<Rightarrow> int \<Rightarrow> real \<Rightarrow> real \<Rightarrow> int \<Rightarrow> real list \<times> 'g \<Rightarrow> (real list \<times> 'g) option" where
  "fill_rand rand rand_max lower upper n =
     for_loop 0 n
       (\<lambda>i (xs, g). case rand g of
                      (r, g') \<Rightarrow>
                        do { xs' \<leftarrow> wr xs i (rand_scalar lower upper rand_max r);
                             Some (xs', g') })"

text \<open>
  The bounds \<^verbatim>\<open>bsize*owner_range[k]\<close> and \<^verbatim>\<open>bsize*owner_range[k+1]\<close> of the loop that
  skips the draws of another rank are products of two \<^verbatim>\<open>int\<close>s that are not used as
  indices, so no array bounds them. An \<^verbatim>\<open>int\<close> has 32 bits, and the overflow of a signed
  product is undefined: \<open>mul_int\<close> is \<open>None\<close> there.
\<close>

definition INT_MIN :: int where
  "INT_MIN = - 2147483648"

definition INT_MAX :: int where
  "INT_MAX = 2147483647"

definition in_int :: "int \<Rightarrow> bool" where
  "in_int a = (INT_MIN \<le> a \<and> a \<le> INT_MAX)"

definition mul_int :: "int \<Rightarrow> int \<Rightarrow> int option" where
  "mul_int a b = (if in_int (a * b) then Some (a * b) else None)"

text \<open>The loop \<^verbatim>\<open>for ( int i = bsize*owner_range[k]; i < end; i++ ){ rand(); }\<close>.\<close>

definition skip_rand :: "('g \<Rightarrow> int \<times> 'g) \<Rightarrow> int \<Rightarrow> int \<Rightarrow> 'g \<Rightarrow> 'g option" where
  "skip_rand rand i0 end g = for_loop i0 end (\<lambda>i g. Some (snd (rand g))) g"

definition setRand ::
  "('g \<Rightarrow> int \<times> 'g) \<Rightarrow> int \<Rightarrow> real \<Rightarrow> real \<Rightarrow> 'c TACSBVec \<times> 'g \<Rightarrow> ('c TACSBVec \<times> 'g) option" where
  "setRand rand rand_max lower upper vg =
     (case vg of
        (v, g) \<Rightarrow>
          (case var_map v of
             None \<Rightarrow>
               do {
                 (xs, g') \<leftarrow> fill_rand rand rand_max lower upper (size_loc v) (x_loc v, g);
                 Some (v\<lparr> x_loc := xs \<rparr>, g')
               }
           | Some vm \<Rightarrow>
               do {
                 let mpi_size = comm_size (comm v);
                 let mpi_rank = comm_rank (comm v);
                 (xs, g') \<leftarrow>
                   for_loop 0 mpi_size
                     (\<lambda>k (xs, g).
                        if k \<noteq> mpi_rank then
                          do {
                            hi \<leftarrow> rd (owner_range vm) (k + 1);
                            end \<leftarrow> mul_int (bsize v) hi;
                            lo \<leftarrow> rd (owner_range vm) k;
                            i0 \<leftarrow> mul_int (bsize v) lo;
                            g' \<leftarrow> skip_rand rand i0 end g;
                            Some (xs, g')
                          }
                        else fill_rand rand rand_max lower upper (size_loc v) (xs, g))
                     (x_loc v, g);
                 Some (v\<lparr> x_loc := xs \<rparr>, g')
               }))"

text \<open>
  For the statement about \<open>setRand\<close>: the state of the generator after \<open>n\<close> draws,
  and the first \<open>n\<close> values drawn from a state.
\<close>

definition rand_adv :: "('g \<Rightarrow> int \<times> 'g) \<Rightarrow> nat \<Rightarrow> 'g \<Rightarrow> 'g" where
  "rand_adv rand n g = ((\<lambda>g. snd (rand g)) ^^ n) g"

definition rand_draws :: "('g \<Rightarrow> int \<times> 'g) \<Rightarrow> nat \<Rightarrow> 'g \<Rightarrow> int list" where
  "rand_draws rand n g = map (\<lambda>i. fst (rand (rand_adv rand i g))) [0..<n]"

subsection \<open>Boundary conditions\<close>

text \<open>
  The test \<^verbatim>\<open>g >= owner_range[rank] && g < owner_range[rank+1]\<close>, which the source
  repeats in every routine that classifies a global index; the second entry is read only
  when the first comparison holds.
\<close>

definition owned :: "int list \<Rightarrow> int \<Rightarrow> int \<Rightarrow> bool option" where
  "owned orange rank g =
     do {
       lo \<leftarrow> rd orange rank;
       if g \<ge> lo then do { hi \<leftarrow> rd orange (rank + 1); Some (g < hi) } else Some False
     }"

text \<open>\<^verbatim>\<open>applyBCs\<close>. The array \<^verbatim>\<open>x\<close> is never null, so the guard is \<^verbatim>\<open>bcs\<close> alone.\<close>

definition applyBCs :: "'c TACSBVec \<Rightarrow> 'c TACSBVec option" where
  "applyBCs v =
     (case bcs v of
        None \<Rightarrow> Some v
      | Some bc \<Rightarrow>
          do {
            let mpi_rank = comm_rank (comm v);
            vm \<leftarrow> var_map v;
            xs \<leftarrow>
              for_loop 0 (nbcs bc)
                (\<lambda>i xs.
                   do {
                     g \<leftarrow> rd (bc_global bc) i;
                     own \<leftarrow> owned (owner_range vm) mpi_rank g;
                     if own then
                       do {
                         lo \<leftarrow> rd (owner_range vm) mpi_rank;
                         let var = bsize v * (g - lo);
                         k0 \<leftarrow> rd (bc_var_ptr bc) i;
                         k1 \<leftarrow> rd (bc_var_ptr bc) (i + 1);
                         for_loop k0 k1
                           (\<lambda>k xs. do { d \<leftarrow> rd (bc_vars bc) k; wr xs (var + d) 0 }) xs
                       }
                     else Some xs
                   })
                (x_loc v);
            Some (v\<lparr> x_loc := xs \<rparr>)
          })"

subsection \<open>Reading from a file\<close>

text \<open>
  A file that can be opened holds the \<^verbatim>\<open>int\<close> of its header and the scalars after it.
  \<^verbatim>\<open>MPI_File_open\<close> leaves \<^verbatim>\<open>fp\<close> null when the file cannot be opened: the file is
  \<open>None\<close>. \<^verbatim>\<open>MPI_Allgather\<close> delivers the sizes of the pieces of all ranks, in rank
  order; they are the parameter \<open>sizes\<close>, and the entry of this rank is \<^verbatim>\<open>size\<close>.
\<close>

record vec_file =
  file_len :: int
  file_vals :: "real list"

text \<open>
  Modelled from the spec: \<^verbatim>\<open>MPI_File_read_at_all\<close> belongs to the MPI library; with the
  view set behind the header it reads \<open>count\<close> scalars of the file from position
  \<open>offset\<close> into the buffer, and fewer when the file ends before.
\<close>

definition MPI_File_read_at_all :: "real list \<Rightarrow> int \<Rightarrow> real list \<Rightarrow> int \<Rightarrow> real list option" where
  "MPI_File_read_at_all vals offset buf count =
     (if 0 \<le> offset \<and> 0 \<le> count \<and> count \<le> int (length buf) then
        (let got = take (nat count) (drop (nat offset) vals)
         in Some (got @ drop (length got) buf))
      else None)"

definition readFromFile ::
  "vec_file option \<Rightarrow> int list \<Rightarrow> 'c TACSBVec \<Rightarrow> ('c TACSBVec \<times> int) option" where
  "readFromFile fp sizes v =
     do {
       let mpi_rank = comm_rank (comm v);
       let mpi_size = comm_size (comm v);
       range \<leftarrow> (if int (length sizes) = mpi_size then Some (0 # sizes) else None);
       range \<leftarrow> for_loop 0 mpi_size
                 (\<lambda>i range. do { a \<leftarrow> rd range (i + 1); b \<leftarrow> rd range i; wr range (i + 1) (a + b) })
                 range;
       (case fp of
          Some f \<Rightarrow>
            do {
              let len = file_len f;
              total \<leftarrow> rd range mpi_size;
              xs \<leftarrow> (if len \<noteq> total then memset_zero (x_loc v) (size_loc v)
                     else Some (x_loc v));
              offset \<leftarrow> rd range mpi_rank;
              xs \<leftarrow> MPI_File_read_at_all (file_vals f) offset xs (size_loc v);
              Some (v\<lparr> x_loc := xs \<rparr>, 0)
            }
        | None \<Rightarrow> Some (v, 1))
     }"

subsection \<open>Setting and getting blocks of values\<close>

text \<open>
  The loops \<^verbatim>\<open>for ( int k = 0; k < bsize; k++, vals++, y++ ){ y[0] = vals[0]; }\<close> and
  \<^verbatim>\<open>{ y[0] += vals[0]; }\<close>: \<open>y\<close> is the array that the pointer \<^verbatim>\<open>y\<close> walks, \<open>yi\<close> the
  position it starts at, \<open>vp\<close> the position of the pointer \<^verbatim>\<open>vals\<close> in its array.
  The loop returns the array written and the position \<^verbatim>\<open>vals\<close> is left at.
\<close>

definition blk_upd ::
  "(real \<Rightarrow> real \<Rightarrow> real) \<Rightarrow> real list \<Rightarrow> int \<Rightarrow> real list \<Rightarrow> int \<Rightarrow> int \<Rightarrow> (real list \<times> int) option" where
  "blk_upd f y yi vals vp b =
     do {
       (y', yi', vp') \<leftarrow>
         for_loop 0 b
           (\<lambda>k (y, yi, vp).
              do { s \<leftarrow> rd vals vp; old \<leftarrow> rd y yi; y' \<leftarrow> wr y yi (f old s);
                   Some (y', yi + 1, vp + 1) })
           (y, yi, vp);
       Some (y', vp')
     }"

definition blk_set :: "real list \<Rightarrow> int \<Rightarrow> real list \<Rightarrow> int \<Rightarrow> int \<Rightarrow> (real list \<times> int) option" where
  "blk_set = blk_upd (\<lambda>old s. s)"

definition blk_add :: "real list \<Rightarrow> int \<Rightarrow> real list \<Rightarrow> int \<Rightarrow> int \<Rightarrow> (real list \<times> int) option" where
  "blk_add = blk_upd (\<lambda>old s. old + s)"

text \<open>
  \<^verbatim>\<open>setValues\<close>. The state of the loop over \<open>i\<close> is the vector and the position of
  \<^verbatim>\<open>vals\<close>; \<open>setValues_at\<close> is the body of that loop. The third branch runs the adding
  loop for both operations, as the source does.
\<close>

definition setValues_at ::
  "int list \<Rightarrow> int \<Rightarrow> int list \<Rightarrow> real list \<Rightarrow> TACSBVecOperation \<Rightarrow> int \<Rightarrow>
   'c TACSBVec \<times> int \<Rightarrow> ('c TACSBVec \<times> int) option" where
  "setValues_at orange rank index vals op i wvp =
     (case wvp of
        (w, vp) \<Rightarrow>
          do {
            g \<leftarrow> rd index i;
            own \<leftarrow> owned orange rank g;
            if own then
              do {
                lo \<leftarrow> rd orange rank;
                let x_index = bsize w * (g - lo);
                (y, vp') \<leftarrow>
                  (if op = INSERT_VALUES then blk_set (x_loc w) x_index vals vp (bsize w)
                   else blk_add (x_loc w) x_index vals vp (bsize w));
                Some (w\<lparr> x_loc := y \<rparr>, vp')
              }
            else if g < 0 then
              do {
                let dep_index = - bsize w * (g + 1);
                z \<leftarrow> x_dep w;
                (y, vp') \<leftarrow>
                  (if op = INSERT_VALUES then blk_set z dep_index vals vp (bsize w)
                   else blk_add z dep_index vals vp (bsize w));
                Some (w\<lparr> x_dep := Some y \<rparr>, vp')
              }
            else
              do {
                ind \<leftarrow> ext_indices w;
                let ext_index = bsize w * findIndex ind g;
                e \<leftarrow> x_ext w;
                (y, vp') \<leftarrow>
                  (if op = INSERT_VALUES then blk_add e ext_index vals vp (bsize w)
                   else blk_add e ext_index vals vp (bsize w));
                Some (w\<lparr> x_ext := Some y \<rparr>, vp')
              }
          })"

definition setValues ::
  "int \<Rightarrow> int list \<Rightarrow> real list \<Rightarrow> TACSBVecOperation \<Rightarrow> 'c TACSBVec \<Rightarrow> 'c TACSBVec option" where
  "setValues n index vals op v =
     do {
       let rank = comm_rank (comm v);
       vm \<leftarrow> var_map v;
       (v', vp') \<leftarrow> for_loop 0 n (setValues_at (owner_range vm) rank index vals op) (v, 0);
       Some v'
     }"

text \<open>
  The loop \<^verbatim>\<open>for ( int k = 0; k < bsize; k++, vals++, y++ ){ vals[0] = y[0]; }\<close> of
  \<^verbatim>\<open>getValues\<close>, which writes the caller's array \<^verbatim>\<open>vals\<close>.
\<close>

definition blk_get :: "real list \<Rightarrow> int \<Rightarrow> real list \<Rightarrow> int \<Rightarrow> int \<Rightarrow> (real list \<times> int) option" where
  "blk_get y yi vals vp b =
     do {
       (vals', yi', vp') \<leftarrow>
         for_loop 0 b
           (\<lambda>k (vals, yi, vp).
              do { s \<leftarrow> rd y yi; vals' \<leftarrow> wr vals vp s; Some (vals', yi + 1, vp + 1) })
           (vals, yi, vp);
       Some (vals', vp')
     }"

text \<open>
  \<^verbatim>\<open>getValues\<close>: the vector is only read; the result is the caller's array.
  \<open>getValues_at\<close> is the body of the loop over \<open>i\<close>.
\<close>

definition getValues_at ::
  "int list \<Rightarrow> int \<Rightarrow> int list \<Rightarrow> 'c TACSBVec \<Rightarrow> int \<Rightarrow> real list \<times> int \<Rightarrow>
   (real list \<times> int) option" where
  "getValues_at orange rank index v i vvp =
     (case vvp of
        (vals, vp) \<Rightarrow>
          do {
            g \<leftarrow> rd index i;
            own \<leftarrow> owned orange rank g;
            if own then
              do {
                lo \<leftarrow> rd orange rank;
                let x_index = bsize v * (g - lo);
                blk_get (x_loc v) x_index vals vp (bsize v)
              }
            else if g < 0 then
              do {
                let dep_index = - bsize v * (g + 1);
                z \<leftarrow> x_dep v;
                blk_get z dep_index vals vp (bsize v)
              }
            else
              do {
                ind \<leftarrow> ext_indices v;
                let ext_index = bsize v * findIndex ind g;
                e \<leftarrow> x_ext v;
                blk_get e ext_index vals vp (bsize v)
              }
          })"

definition getValues :: "int \<Rightarrow> int list \<Rightarrow> real list \<Rightarrow> 'c TACSBVec \<Rightarrow> real list option" where
  "getValues n index vals v =
     do {
       let rank = comm_rank (comm v);
       vm \<leftarrow> var_map v;
       (vals', vp') \<leftarrow> for_loop 0 n (getValues_at (owner_range vm) rank index v) (vals, 0);
       Some vals'
     }"

text \<open>
  For the statements about \<open>setValues\<close> and \<open>getValues\<close>: entry \<open>k\<close> of the block
  of a global index \<open>g\<close> that is owned (\<open>lo \<le> g < hi\<close>) or else dependent.
\<close>

definition block_entry :: "'c TACSBVec \<Rightarrow> int \<Rightarrow> int \<Rightarrow> int \<Rightarrow> int \<Rightarrow> real" where
  "block_entry w lo hi g k =
     (if lo \<le> g \<and> g < hi then x_loc w ! nat (bsize w * (g - lo) + k)
      else the (x_dep w) ! nat (- bsize w * (g + 1) + k))"

subsection \<open>Assembly and distribution\<close>

text \<open>
  The loop \<^verbatim>\<open>for ( int k = 0; k < bsize; k++, y++ )\<close> of the two routines below, which
  adds a weighted block of one array to a block of another: in \<^verbatim>\<open>beginSetValues\<close> it
  is \<^verbatim>\<open>y[0] += dep_weights[jp]*z[k]\<close>, in \<^verbatim>\<open>endDistributeValues\<close> it is
  \<^verbatim>\<open>z[k] += dep_weights[jp]*y[0]\<close>. \<open>t\<close> is the array written, from position \<open>ti\<close>,
  and \<open>s\<close> the array read, from position \<open>si\<close>.
\<close>

definition blk_axpy ::
  "real list \<Rightarrow> int \<Rightarrow> real list \<Rightarrow> int \<Rightarrow> real list \<Rightarrow> int \<Rightarrow> int \<Rightarrow> real list option" where
  "blk_axpy weights jp s si t ti b =
     for_loop 0 b
       (\<lambda>k t. do { wgt \<leftarrow> rd weights jp; a \<leftarrow> rd s (si + k); old \<leftarrow> rd t (ti + k);
                   wr t (ti + k) (old + wgt * a) })
       t"

text \<open>
  \<^verbatim>\<open>beginSetValues\<close>. The pointer \<^verbatim>\<open>z\<close> into the dependent array moves by \<^verbatim>\<open>bsize\<close>
  with \<open>i\<close>; its position \<open>zi\<close> is part of the state of the loop over \<open>i\<close>.
  \<open>collapse_dep\<close> is the body of \<^verbatim>\<open>if (dep_nodes && (op == ADD_VALUES))\<close>,
  \<open>collapse_node\<close> the body of its loop over \<open>i\<close> and \<open>collapse_parent\<close> the body of
  the loop over \<open>jp\<close>. The dependent array is allocated whenever \<^verbatim>\<open>dep_nodes\<close> is set.
\<close>

definition collapse_parent ::
  "TACSBVecDepNodes \<Rightarrow> int list \<Rightarrow> int \<Rightarrow> int \<Rightarrow> int \<Rightarrow> 'c TACSBVec \<Rightarrow> 'c TACSBVec option" where
  "collapse_parent dn orange rank zi jp w =
     do {
       c \<leftarrow> rd (dep_conn dn) jp;
       own \<leftarrow> owned orange rank c;
       if own then
         do {
           lo \<leftarrow> rd orange rank;
           let x_index = bsize w * (c - lo);
           z \<leftarrow> x_dep w;
           y \<leftarrow> blk_axpy (dep_weights dn) jp z zi (x_loc w) x_index (bsize w);
           Some (w\<lparr> x_loc := y \<rparr>)
         }
       else
         do {
           ind \<leftarrow> ext_indices w;
           let ext_index = bsize w * findIndex ind c;
           e \<leftarrow> x_ext w;
           z \<leftarrow> x_dep w;
           y \<leftarrow> blk_axpy (dep_weights dn) jp z zi e ext_index (bsize w);
           Some (w\<lparr> x_ext := Some y \<rparr>)
         }
     }"

definition collapse_node ::
  "TACSBVecDepNodes \<Rightarrow> int list \<Rightarrow> int \<Rightarrow> int \<Rightarrow> 'c TACSBVec \<times> int \<Rightarrow>
   ('c TACSBVec \<times> int) option" where
  "collapse_node dn orange rank i wzi =
     (case wzi of
        (w, zi) \<Rightarrow>
          do {
            jp0 \<leftarrow> rd (dep_ptr dn) i;
            jp1 \<leftarrow> rd (dep_ptr dn) (i + 1);
            w' \<leftarrow> for_loop jp0 jp1 (collapse_parent dn orange rank zi) w;
            Some (w', zi + bsize w)
          })"

definition collapse_dep ::
  "TACSBVecDepNodes \<Rightarrow> int list \<Rightarrow> int \<Rightarrow> 'c TACSBVec \<Rightarrow> 'c TACSBVec option" where
  "collapse_dep dn orange rank v =
     do {
       (v', zi') \<leftarrow> for_loop 0 (ndep dn) (collapse_node dn orange rank) (v, 0);
       Some v'
     }"

definition beginSetValues :: "TACSBVecOperation \<Rightarrow> 'c TACSBVec \<Rightarrow> 'c TACSBVec option" where
  "beginSetValues op v =
     do {
       let rank = comm_rank (comm v);
       vm \<leftarrow> var_map v;
       v1 \<leftarrow> (case dep_nodes v of
                Some dn \<Rightarrow>
                  if op = ADD_VALUES then collapse_dep dn (owner_range vm) rank v else Some v
              | None \<Rightarrow> Some v);
       (case ext_dist v1 of
          Some d \<Rightarrow> call_reverse (beginReverse d) op v1
        | None \<Rightarrow> Some v1)
     }"

text \<open>\<^verbatim>\<open>beginDistributeValues\<close>.\<close>

definition beginDistributeValues :: "'c TACSBVec \<Rightarrow> 'c TACSBVec option" where
  "beginDistributeValues v =
     (case ext_dist v of
        Some d \<Rightarrow> call_forward (beginForward d) v
      | None \<Rightarrow> Some v)"

text \<open>
  \<^verbatim>\<open>endDistributeValues\<close>. \<open>eval_dep\<close> is the body of \<^verbatim>\<open>if (dep_nodes)\<close>; the state of
  its loops is the dependent array, and the pointer \<^verbatim>\<open>z\<close> is again a position \<open>zi\<close>.
  \<open>eval_node\<close> is the body of the loop over \<open>i\<close> and \<open>eval_parent\<close> the body of the
  loop over \<open>jp\<close>.
\<close>

definition eval_parent ::
  "TACSBVecDepNodes \<Rightarrow> int list \<Rightarrow> int \<Rightarrow> 'c TACSBVec \<Rightarrow> int \<Rightarrow> int \<Rightarrow> real list \<Rightarrow>
   real list option" where
  "eval_parent dn orange rank v zi jp z =
     do {
       c \<leftarrow> rd (dep_conn dn) jp;
       own \<leftarrow> owned orange rank c;
       if own then
         do {
           lo \<leftarrow> rd orange rank;
           let x_index = bsize v * (c - lo);
           blk_axpy (dep_weights dn) jp (x_loc v) x_index z zi (bsize v)
         }
       else
         do {
           ind \<leftarrow> ext_indices v;
           let ext_index = bsize v * findIndex ind c;
           e \<leftarrow> x_ext v;
           blk_axpy (dep_weights dn) jp e ext_index z zi (bsize v)
         }
     }"

definition eval_node ::
  "TACSBVecDepNodes \<Rightarrow> int list \<Rightarrow> int \<Rightarrow> 'c TACSBVec \<Rightarrow> int \<Rightarrow> real list \<times> int \<Rightarrow>
   (real list \<times> int) option" where
  "eval_node dn orange rank v i zzi =
     (case zzi of
        (z, zi) \<Rightarrow>
          do {
            z1 \<leftarrow> for_loop 0 (bsize v) (\<lambda>k z. wr z (zi + k) 0) z;
            jp0 \<leftarrow> rd (dep_ptr dn) i;
            jp1 \<leftarrow> rd (dep_ptr dn) (i + 1);
            z2 \<leftarrow> for_loop jp0 jp1 (eval_parent dn orange rank v zi) z1;
            Some (z2, zi + bsize v)
          })"

definition eval_dep :: "TACSBVecDepNodes \<Rightarrow> 'c TACSBVec \<Rightarrow> 'c TACSBVec option" where
  "eval_dep dn v =
     do {
       let rank = comm_rank (comm v);
       vm \<leftarrow> var_map v;
       z0 \<leftarrow> x_dep v;
       (z', zi') \<leftarrow> for_loop 0 (ndep dn) (eval_node dn (owner_range vm) rank v) (z0, 0);
       Some (v\<lparr> x_dep := Some z' \<rparr>)
     }"

definition endDistributeValues :: "'c TACSBVec \<Rightarrow> 'c TACSBVec option" where
  "endDistributeValues v =
     do {
       v1 \<leftarrow> (case ext_dist v of
                Some d \<Rightarrow> call_forward (endForward d) v
              | None \<Rightarrow> Some v);
       (case dep_nodes v1 of
          Some dn \<Rightarrow> eval_dep dn v1
        | None \<Rightarrow> Some v1)
     }"

text \<open>
  For the statements about the dependent nodes: entry \<open>k\<close> of the block of a parent
  \<open>c\<close>, read from the owned values when \<open>c\<close> is owned (\<open>lo \<le> c < hi\<close>) and otherwise from
  the ghost values at \<open>findIndex c\<close>; and the condition that this block lies inside its
  array.
\<close>

definition parent_entry :: "'c TACSBVec \<Rightarrow> int \<Rightarrow> int \<Rightarrow> int \<Rightarrow> int \<Rightarrow> real" where
  "parent_entry v lo hi c k =
     (if lo \<le> c \<and> c < hi then x_loc v ! nat (bsize v * (c - lo) + k)
      else the (x_ext v) ! nat (bsize v * findIndex (the (ext_indices v)) c + k))"

definition parent_ok :: "'c TACSBVec \<Rightarrow> int \<Rightarrow> int \<Rightarrow> int \<Rightarrow> bool" where
  "parent_ok v lo hi c =
     (if lo \<le> c \<and> c < hi then bsize v * (c - lo) + bsize v \<le> int (length (x_loc v))
      else (case (ext_indices v, x_ext v) of
              (Some ind, Some e) \<Rightarrow>
                0 \<le> bsize v * findIndex ind c \<and>
                bsize v * findIndex ind c + bsize v \<le> int (length e)
            | _ \<Rightarrow> False))"

text \<open>
  For the statement about \<open>beginSetValues\<close>: where the block of a parent \<open>c\<close> starts
  in its array; what the parent \<open>jp\<close> of the dependent node \<open>i\<close> adds at position \<open>p\<close>
  of the owned values (\<open>loc\<close>) or of the ghost values (\<open>\<not> loc\<close>), namely
  \<open>dep_weights[jp]\<cdot>dep[B\<cdot>i + k]\<close> at entry \<open>k\<close> of the parent's block and nothing
  elsewhere; and the sum of these over all dependent nodes and all their parents.
\<close>

definition parent_base :: "'c TACSBVec \<Rightarrow> int \<Rightarrow> int \<Rightarrow> int \<Rightarrow> int" where
  "parent_base v lo hi c =
     (if lo \<le> c \<and> c < hi then bsize v * (c - lo)
      else bsize v * findIndex (the (ext_indices v)) c)"

definition dep_contrib ::
  "'c TACSBVec \<Rightarrow> TACSBVecDepNodes \<Rightarrow> int \<Rightarrow> int \<Rightarrow> bool \<Rightarrow> int \<Rightarrow> int \<Rightarrow> int \<Rightarrow> real" where
  "dep_contrib v dn lo hi loc p i jp =
     (let c = dep_conn dn ! nat jp; b = parent_base v lo hi c
      in if (lo \<le> c \<and> c < hi) = loc \<and> b \<le> p \<and> p < b + bsize v
         then dep_weights dn ! nat jp * the (x_dep v) ! nat (bsize v * i + (p - b))
         else 0)"

definition dep_total ::
  "'c TACSBVec \<Rightarrow> TACSBVecDepNodes \<Rightarrow> int \<Rightarrow> int \<Rightarrow> bool \<Rightarrow> int \<Rightarrow> real" where
  "dep_total v dn lo hi loc p =
     (\<Sum>i\<leftarrow>[0..ndep dn - 1].
        \<Sum>jp\<leftarrow>[dep_ptr dn ! nat i..dep_ptr dn ! nat (i + 1) - 1]. dep_contrib v dn lo hi loc p i jp)"

text \<open>
  The vector with \<open>f True p\<close> added at every position \<open>p\<close> of the owned values and
  \<open>f False p\<close> at every position of the ghost values; and the vector with the
  contributions of all dependent nodes added.
\<close>

definition added :: "'c TACSBVec \<Rightarrow> (bool \<Rightarrow> int \<Rightarrow> real) \<Rightarrow> 'c TACSBVec" where
  "added v f =
     v\<lparr> x_loc := map (\<lambda>p. x_loc v ! p + f True (int p)) [0..<length (x_loc v)],
        x_ext := map_option (\<lambda>e. map (\<lambda>p. e ! p + f False (int p)) [0..<length e]) (x_ext v) \<rparr>"

definition collapsed :: "'c TACSBVec \<Rightarrow> TACSBVecDepNodes \<Rightarrow> int \<Rightarrow> int \<Rightarrow> 'c TACSBVec" where
  "collapsed v dn lo hi = added v (dep_total v dn lo hi)"

section \<open>An example configuration\<close>

text \<open>
  The first of two ranks of a vector with blocks of two scalars on four nodes; the rank
  owns the nodes 0 and 1, has node 3 as its only ghost, one dependent node with the
  parents 0 and 3, and a boundary condition at node 1. The plan's operations leave the
  arrays as they are, but for \<open>endReverse\<close>, which adds the first ghost value to an
  owned one. The theorems below are instantiated at it.
\<close>

definition ex_map :: TACSVarMap where
  "ex_map = \<lparr> map_comm = \<lparr> comm_rank = 0, comm_size = 2 \<rparr>, map_dim = 2, owner_range = [0, 2, 4] \<rparr>"

definition ex_indices :: TACSBVecIndices where
  "ex_indices = \<lparr> findIndex = (\<lambda>g. if g = 3 then 0 else - 1) \<rparr>"

definition ex_dist :: "unit TACSBVecDistribute" where
  "ex_dist = \<lparr> getIndices = ex_indices, getDim = 1, createCtx = (\<lambda>b. ()),
       beginForward = (\<lambda>c xs g. (c, (!) xs, (!) g)),
       endForward = (\<lambda>c xs g. (c, (!) xs, (!) g)),
       beginReverse = (\<lambda>c g xs op. (c, (!) g, (!) xs)),
       endReverse = (\<lambda>c g xs op. (c, (!) g, (\<lambda>i. if i = 2 then xs ! 2 + g ! 0 else xs ! i))) \<rparr>"

definition ex_deps :: TACSBVecDepNodes where
  "ex_deps = \<lparr> ndep = 1, dep_ptr = [0, 2], dep_conn = [0, 3], dep_weights = [1 / 2, 1 / 2] \<rparr>"

definition ex_bcs :: TACSBcMap where
  "ex_bcs = \<lparr> nbcs = 1, bc_local = [1], bc_global = [1], bc_var_ptr = [0, 1],
              bc_vars = [0], bc_values = [9] \<rparr>"

definition ex_vec :: "unit TACSBVec" where
  "ex_vec = \<lparr> var_map = Some ex_map, comm = map_comm ex_map, bcs = Some ex_bcs, bsize = 2,
       size_loc = 4, x_loc = [1, 2, 3, 4], ext_dist = Some ex_dist,
       ext_indices = Some ex_indices, ext_size = 2, x_ext = Some [5, 6],
       ext_ctx = Some (), dep_nodes = Some ex_deps, dep_size = 2, x_dep = Some [7, 8] \<rparr>"


text \<open>The piece of the same vector on the second rank, whose only ghost is node 0.\<close>

definition ex_vec1 :: "unit TACSBVec" where
  "ex_vec1 = ex_vec\<lparr> var_map := Some (ex_map\<lparr> map_comm := \<lparr> comm_rank = 1, comm_size = 2 \<rparr> \<rparr>),
       comm := \<lparr> comm_rank = 1, comm_size = 2 \<rparr>, x_loc := [1, 1, 2, 0],
       ext_indices := Some \<lparr> findIndex = (\<lambda>g. if g = 0 then 0 else - 1) \<rparr> \<rparr>"

text \<open>
  A store with the example vector at address 0, a block vector of another size at
  address 1 and an object of another class at address 2.
\<close>

definition ex_store :: "unit store" where
  "ex_store = (\<lambda>a. None)(0 \<mapsto> BVec ex_vec,
                          1 \<mapsto> BVec (ex_vec\<lparr> size_loc := 2, x_loc := [1, 1] \<rparr>),
                          2 \<mapsto> OtherVec)"

text \<open>
  The same vector held by a single rank, and a small linear congruential generator in
  the place of \<^verbatim>\<open>rand\<close>, with 15 as its largest value.
\<close>

definition ex_single :: "unit TACSBVec" where
  "ex_single = \<lparr> var_map = Some \<lparr> map_comm = \<lparr> comm_rank = 0, comm_size = 1 \<rparr>, map_dim = 4,
                                   owner_range = [0, 4] \<rparr>,
       comm = \<lparr> comm_rank = 0, comm_size = 1 \<rparr>, bcs = None, bsize = 2,
       size_loc = 8, x_loc = [0, 0, 0, 0, 0, 0, 0, 0], ext_dist = None,
       ext_indices = None, ext_size = 0, x_ext = None,
       ext_ctx = None, dep_nodes = None, dep_size = 0, x_dep = None \<rparr>"

definition ex_rand :: "int \<Rightarrow> int \<times> int" where
  "ex_rand s = ((5 * s + 3) mod 16, (5 * s + 3) mod 16)"

text \<open>
  The second of two ranks of a vector with more than \<open>2\<^sup>3\<^sup>1\<close> scalars: the first rank
  owns 1073741825 nodes of two scalars, the second rank the last node.
\<close>

definition ex_far :: "unit TACSBVec" where
  "ex_far = ex_single\<lparr> var_map := Some \<lparr> map_comm = \<lparr> comm_rank = 1, comm_size = 2 \<rparr>,
                  map_dim = 1073741826, owner_range = [0, 1073741825, 1073741826] \<rparr>,
       comm := \<lparr> comm_rank = 1, comm_size = 2 \<rparr>, size_loc := 2, x_loc := [0, 0] \<rparr>"

section \<open>Properties\<close>

subsection \<open>Loops and arrays\<close>

lemma for_loop_done: "n \<le> i \<Longrightarrow> for_loop i n body s = Some s"
  by (simp add: for_loop.simps)

lemma for_loop_step:
  "i < n \<Longrightarrow> for_loop i n body s = Option.bind (body i s) (for_loop (i + 1) n body)"
  by (subst for_loop.simps) (simp split: option.splits)

lemma for_loop_rule:
  assumes "I i s" and "i \<le> n"
    and step: "\<And>j t. i \<le> j \<Longrightarrow> j < n \<Longrightarrow> I j t \<Longrightarrow> \<exists>t'. body j t = Some t' \<and> I (j + 1) t'"
  shows "\<exists>s'. for_loop i n body s = Some s' \<and> I n s'"
  using assms
proof (induction "nat (n - i)" arbitrary: i s)
  case 0
  then have "i = n" by simp
  with "0.prems"(1) show ?case by (simp add: for_loop_done)
next
  case (Suc m)
  then have lt: "i < n" by simp
  from Suc.prems(3)[OF order_refl lt Suc.prems(1)]
  obtain t where t: "body i s = Some t" "I (i + 1) t" by blast
  have "\<exists>s'. for_loop (i + 1) n body t = Some s' \<and> I n s'"
  proof (rule Suc.hyps(1))
    show "m = nat (n - (i + 1))" using Suc.hyps(2) by simp
    show "I (i + 1) t" by (rule t(2))
    show "i + 1 \<le> n" using lt by simp
    fix j u assume "i + 1 \<le> j" "j < n" "I j u"
    then show "\<exists>t'. body j u = Some t' \<and> I (j + 1) t'"
      using Suc.prems(3)[of j u] by simp
  qed
  then show ?case using lt t(1) by (simp add: for_loop_step)
qed

lemma memset_zero_full: "int (length a) = n \<Longrightarrow> memset_zero a n = Some (replicate (length a) 0)"
  by (auto simp: memset_zero_def)

lemma length_in_place [simp]: "length (in_place a f) = length a"
  by (simp add: in_place_def)

subsection \<open>The ghost values are zero at rest\<close>

lemma TACSBVec_new_ok:
  assumes "0 \<le> b * map_dim vmap"
    and "\<forall>d. edist = Some d \<longrightarrow> 0 \<le> b * getDim d"
    and "\<forall>dn. deps = Some dn \<longrightarrow> 0 \<le> b * ndep dn"
  shows "\<exists>v. TACSBVec_new vmap b bc edist deps = Some v \<and> alloc_ok v \<and>
           x_ext v = map_option (\<lambda>d. replicate (nat (b * getDim d)) 0) edist"
  using assms
  by (cases edist; cases deps) (auto simp: TACSBVec_new_def new_zeroed_def alloc_ok_def Let_def)

lemma TACSBVec_new_comm_ok:
  assumes "0 \<le> sz"
  shows "\<exists>v. TACSBVec_new_comm cm sz bs = Some (v :: 'c TACSBVec) \<and> alloc_ok v \<and> x_ext v = None"
  using assms by (auto simp: TACSBVec_new_comm_def new_zeroed_def alloc_ok_def)

lemma zeroEntries_ok:
  assumes "alloc_ok v"
  shows "zeroEntries v = Some (v\<lparr> x_loc := replicate (length (x_loc v)) 0,
            x_ext := map_option (\<lambda>g. replicate (length g) 0) (x_ext v),
            x_dep := map_option (\<lambda>z. replicate (length z) 0) (x_dep v) \<rparr>)"
  using assms
  by (auto simp: zeroEntries_def alloc_ok_def memset_zero_full split: option.splits)

lemma endSetValues_ok:
  assumes "alloc_ok v"
  shows "\<exists>v'. endSetValues op v = Some v' \<and>
           x_ext v' = map_option (\<lambda>g. replicate (length g) 0) (x_ext v)"
proof (cases "ext_dist v")
  case None
  then show ?thesis using assms
    by (auto simp: endSetValues_def alloc_ok_def memset_zero_full split: option.splits)
next
  case (Some d)
  from assms Some obtain c g where cg: "ext_ctx v = Some c" "x_ext v = Some g"
    by (auto simp: alloc_ok_def)
  with assms have len: "int (length g) = ext_size v" by (simp add: alloc_ok_def)
  show ?thesis using Some cg len
    by (auto simp: endSetValues_def call_reverse_def memset_zero_full split: prod.splits)
qed

lemma alloc_ok_ex_vec: "alloc_ok ex_vec"
  by (simp add: alloc_ok_def ex_vec_def)

text \<open>
  C6: after either constructor, after \<open>zeroEntries\<close> and after \<open>endSetValues\<close> every
  entry of the ghost array is 0 (a vector without a plan has no ghost array); all three
  return; \<open>zeroEntries\<close> also zeroes the owned and the dependent values. The
  constructors need array lengths that are not negative, the two operations a vector
  that satisfies the allocation invariant, which the constructors establish.
\<close>

theorem ghost_zero_at_rest:
  "(0 \<le> b * map_dim vmap \<and> (\<forall>d. edist = Some (d :: 'c TACSBVecDistribute) \<longrightarrow> 0 \<le> b * getDim d) \<and>
    (\<forall>dn. deps = Some dn \<longrightarrow> 0 \<le> b * ndep dn) \<longrightarrow>
      (\<exists>v. TACSBVec_new vmap b bc edist deps = Some v \<and> alloc_ok v \<and>
           x_ext v = map_option (\<lambda>d. replicate (nat (b * getDim d)) 0) edist)) \<and>
   (0 \<le> sz \<longrightarrow>
      (\<exists>v. TACSBVec_new_comm cm sz bs = Some (v :: 'c TACSBVec) \<and> alloc_ok v \<and> x_ext v = None)) \<and>
   (alloc_ok (u :: 'c TACSBVec) \<longrightarrow>
      zeroEntries u = Some (u\<lparr> x_loc := replicate (length (x_loc u)) 0,
            x_ext := map_option (\<lambda>g. replicate (length g) 0) (x_ext u),
            x_dep := map_option (\<lambda>z. replicate (length z) 0) (x_dep u) \<rparr>) \<and>
      (\<exists>v'. endSetValues op u = Some v' \<and>
           x_ext v' = map_option (\<lambda>g. replicate (length g) 0) (x_ext u)))"
  using TACSBVec_new_ok [of b vmap edist deps bc] TACSBVec_new_comm_ok [of sz cm bs]
    zeroEntries_ok [of u] endSetValues_ok [of u op]
  by blast

theorem ghost_zero_at_rest_witness:
  "(\<exists>v. TACSBVec_new ex_map 2 (Some ex_bcs) (Some ex_dist) (Some ex_deps) = Some v \<and>
        alloc_ok v \<and> x_ext v = Some [0, 0]) \<and>
   (\<exists>v. TACSBVec_new_comm \<lparr> comm_rank = 0, comm_size = 2 \<rparr> 4 2 = Some (v :: unit TACSBVec) \<and>
        alloc_ok v \<and> x_ext v = None) \<and>
   alloc_ok ex_vec \<and>
   zeroEntries ex_vec = Some (ex_vec\<lparr> x_loc := [0, 0, 0, 0], x_ext := Some [0, 0],
       x_dep := Some [0, 0] \<rparr>) \<and>
   (\<exists>v'. endSetValues ADD_VALUES ex_vec = Some v' \<and> x_ext v' = Some [0, 0])"
proof -
  have r2: "replicate 2 (0::real) = [0, 0]" by (simp add: numeral_2_eq_2)
  have r4: "replicate 4 (0::real) = [0, 0, 0, 0]" by (simp add: numeral_eq_Suc)
  have h1: "0 \<le> (2::int) * map_dim ex_map \<and> (\<forall>d. Some ex_dist = Some d \<longrightarrow> 0 \<le> (2::int) * getDim d) \<and>
    (\<forall>dn. Some ex_deps = Some dn \<longrightarrow> 0 \<le> (2::int) * ndep dn)"
    by (simp add: ex_map_def ex_dist_def ex_deps_def)
  have h2: "(0::int) \<le> 4" by simp
  show ?thesis
    using ghost_zero_at_rest [where b = 2 and vmap = ex_map and edist = "Some ex_dist"
        and deps = "Some ex_deps" and sz = 4 and bc = "Some ex_bcs"
        and cm = "\<lparr> comm_rank = 0, comm_size = 2 \<rparr>" and bs = 2 and u = ex_vec and op = ADD_VALUES]
      h1 h2 alloc_ok_ex_vec
    by (simp add: r2 r4 ex_vec_def ex_dist_def)
qed

subsection \<open>A peer of the wrong size or class\<close>

lemma mismatch_ops:
  assumes "dynamic_cast_BVec tv = None \<or> (\<exists>vec. tv = Some (BVec vec) \<and> size_loc vec \<noteq> size_loc v)"
  shows "axpy alpha tv v = Some v" "axpby alpha beta tv v = Some v" "copyValues tv v = Some v"
    "dot_res v tv = Some (Inl 0)"
  using assms
  by (auto simp: axpy_def axpby_def copyValues_def dot_res_def dynamic_cast_BVec_def
      split: option.splits TACSVec.splits)

text \<open>
  C8: when the peer of \<open>axpy\<close>, \<open>axpby\<close>, \<open>copyValues\<close> or \<open>dot\<close> is not a block
  vector (a null pointer or an object of another class) or is a block vector of another
  size, the operation leaves the whole store as it was, this vector and the peer
  included, and \<open>dot\<close> returns 0 at once, without entering the reduction.
\<close>

theorem mismatch_no_mutation:
  assumes "h this = Some (BVec v)"
    and "dynamic_cast_BVec (h tvec) = None \<or>
         (\<exists>vec. h tvec = Some (BVec vec) \<and> size_loc vec \<noteq> size_loc v)"
  shows "call_method (axpy alpha) this tvec h = Some h \<and>
         call_method (axpby alpha beta) this tvec h = Some h \<and>
         call_method copyValues this tvec h = Some h \<and>
         dot_method this tvec h = Some (h, Inl 0)"
proof -
  have "h(this \<mapsto> BVec v) = h" using assms(1) by (rule fun_upd_idem)
  then show ?thesis
    using assms(1) mismatch_ops [OF assms(2)]
    by (simp add: call_method_def dot_method_def)
qed

theorem mismatch_no_mutation_witness:
  "ex_store 0 = Some (BVec ex_vec) \<and>
   (\<exists>vec. ex_store 1 = Some (BVec vec) \<and> size_loc vec \<noteq> size_loc ex_vec) \<and>
   dynamic_cast_BVec (ex_store 2) = None \<and> dynamic_cast_BVec (ex_store 3) = None \<and>
   call_method (axpy 2) 0 1 ex_store = Some ex_store \<and>
   call_method (axpby 2 3) 0 2 ex_store = Some ex_store \<and>
   call_method copyValues 0 3 ex_store = Some ex_store \<and>
   dot_method 0 1 ex_store = Some (ex_store, Inl 0)"
proof -
  have a: "ex_store 0 = Some (BVec ex_vec)" by (simp add: ex_store_def)
  have b: "\<exists>vec. ex_store 1 = Some (BVec vec) \<and> size_loc vec \<noteq> size_loc ex_vec"
    by (simp add: ex_store_def ex_vec_def)
  have c: "dynamic_cast_BVec (ex_store 2) = None" "dynamic_cast_BVec (ex_store 3) = None"
    by (simp_all add: ex_store_def dynamic_cast_BVec_def)
  show ?thesis
    using mismatch_no_mutation [where h = ex_store and this = 0 and tvec = 1 and v = ex_vec
        and alpha = 2 and beta = 3]
      mismatch_no_mutation [where h = ex_store and this = 0 and tvec = 2 and v = ex_vec
        and alpha = 2 and beta = 3]
      mismatch_no_mutation [where h = ex_store and this = 0 and tvec = 3 and v = ex_vec
        and alpha = 2 and beta = 3] a b c
    by simp
qed

subsection \<open>Reading a file of the wrong length\<close>

text \<open>
  C4: the example vector, the first of two ranks with four scalars each, reads a file
  whose header says 6 where the sizes add up to 8. The source zeroes \<^verbatim>\<open>x\<close>, prints the
  error, and then goes on to \<^verbatim>\<open>MPI_File_read_at_all\<close>: the values of the file are
  loaded and the call returns \<^verbatim>\<open>fail = 0\<close>.
\<close>

theorem readFromFile_wrong_length:
  "readFromFile (Some \<lparr> file_len = 6, file_vals = [10, 20, 30, 40, 50, 60] \<rparr>) [4, 4] ex_vec
     = Some (ex_vec\<lparr> x_loc := [10, 20, 30, 40] \<rparr>, 0)"
  by (simp add: readFromFile_def ex_vec_def ex_map_def for_loop.simps rd_def wr_def
      memset_zero_def MPI_File_read_at_all_def)

subsection \<open>Inserting at a ghost node\<close>

text \<open>
  C1: on a vector fresh from the constructor, \<open>setValues\<close> with \<open>INSERT_VALUES\<close> of
  the blocks (1, 1) and (2, 2), both at the ghost node 3, leaves (3, 3) in the ghost
  array: the third branch adds under both operations, where the other two branches
  overwrite.
\<close>

theorem setValues_insert_ghost_adds:
  "map_option x_ext
     (Option.bind (TACSBVec_new ex_map 2 (Some ex_bcs) (Some ex_dist) (Some ex_deps))
        (setValues 2 [3, 3] [1, 1, 2, 2] INSERT_VALUES))
   = Some (Some [3, 3])"
  by (simp add: TACSBVec_new_def new_zeroed_def setValues_def setValues_at_def ex_map_def
      ex_dist_def ex_indices_def ex_deps_def owned_def blk_add_def blk_set_def blk_upd_def
      for_loop.simps rd_def wr_def numeral_eq_Suc)

subsection \<open>The norm and the dot product\<close>

lemma those_map_Some: "(\<forall>x\<in>set xs. f x = Some (g x)) \<Longrightarrow> those (map f xs) = Some (map g xs)"
  by (induction xs) auto

lemma sum_list_zip_same: "(\<Sum>(e, f)\<leftarrow>zip xs xs. e * f) = (\<Sum>e\<leftarrow>xs. e * (e::real))"
  by (induction xs) auto

lemma sum_list_squares_nonneg: "0 \<le> (\<Sum>e\<leftarrow>xs. e * (e::real))"
  by (induction xs) auto

lemma norm_res_eq:
  "int (length (x_loc v)) = size_loc v \<Longrightarrow> norm_res v = Some (\<Sum>e\<leftarrow>x_loc v. e * e)"
  using sum_list_squares_nonneg [of "x_loc v"]
  by (auto simp: norm_res_def BLASnrm2_def)

lemma dot_res_self:
  "int (length (x_loc v)) = size_loc v \<Longrightarrow>
   dot_res v (Some (BVec v)) = Some (Inr (\<Sum>e\<leftarrow>x_loc v. e * e))"
  by (auto simp: dot_res_def dynamic_cast_BVec_def BLASdot_def sum_list_zip_same)

lemma sum_list_nonneg_squares_all:
  "0 \<le> sum_list (map (\<lambda>v. \<Sum>e\<leftarrow>x_loc v. e * e) vs)"
  by (induction vs) (auto simp: sum_list_squares_nonneg)

lemma norm_squared_is_dot_real:
  assumes "\<forall>v\<in>set vs. alloc_ok v"
  shows "norm_all vs = Some (sqrt (\<Sum>v\<leftarrow>vs. \<Sum>e\<leftarrow>x_loc v. e * e)) \<and>
         dot_all vs (map (\<lambda>v. Some (BVec v)) vs) =
           Some (map (\<lambda>w. Some (\<Sum>v\<leftarrow>vs. \<Sum>e\<leftarrow>x_loc v. e * e)) vs) \<and>
         (sqrt (\<Sum>v\<leftarrow>vs. \<Sum>e\<leftarrow>x_loc v. e * e)) ^ 2 = (\<Sum>v\<leftarrow>vs. \<Sum>e\<leftarrow>x_loc v. e * e)"
proof -
  let ?sq = "\<lambda>v :: 'a TACSBVec. \<Sum>e\<leftarrow>x_loc v. e * e"
  let ?S = "sum_list (map ?sq vs)"
  have len: "\<forall>v\<in>set vs. int (length (x_loc v)) = size_loc v"
    using assms by (simp add: alloc_ok_def)
  have n: "those (map norm_res vs) = Some (map ?sq vs)"
    by (rule those_map_Some) (use len norm_res_eq in blast)
  have z: "map (\<lambda>(v, tvec). dot_res v tvec) (zip vs (map (\<lambda>v. Some (BVec v)) vs))
           = map (\<lambda>v. dot_res v (Some (BVec v))) vs"
    by (induction vs) auto
  have d: "those (map (\<lambda>v. dot_res v (Some (BVec v))) vs) = Some (map (\<lambda>v. Inr (?sq v)) vs)"
    by (rule those_map_Some) (use len dot_res_self in blast)
  have c: "concat (map (\<lambda>r. case r of Inl _ \<Rightarrow> [] | Inr res \<Rightarrow> [res]) (map (\<lambda>v. Inr (?sq v) :: real + real) vs))
           = map ?sq vs"
    by (induction vs) auto
  have e: "\<not> list_ex isl (map (\<lambda>v. Inr (?sq v) :: real + real) vs)"
    by (induction vs) auto
  have "norm_all vs = Some (sqrt ?S)"
    by (simp add: norm_all_def n MPI_Allreduce_SUM_def)
  moreover have "dot_all vs (map (\<lambda>v. Some (BVec v)) vs) = Some (map (\<lambda>v. Some ?S) vs)"
    unfolding dot_all_def z d dot_collect_def
    using e by (simp add: c MPI_Allreduce_SUM_def Let_def comp_def)
  moreover have "(sqrt ?S) ^ 2 = ?S"
    using sum_list_nonneg_squares_all [of vs] by simp
  ultimately show ?thesis by simp
qed


text \<open>The loops of the complex build.\<close>

lemma for_loop4_done: "n \<le> i \<Longrightarrow> for_loop4 i n body s = Some s"
  by (simp add: for_loop4.simps)

lemma for_loop4_step:
  "i < n \<Longrightarrow> for_loop4 i n body s = Option.bind (body i s) (for_loop4 (i + 4) n body)"
  by (subst for_loop4.simps) (simp split: option.splits)

lemma for_loop4_rule:
  assumes "I i s" and "i \<le> n" and "(n - i) mod 4 = 0"
    and step: "\<And>j t. i \<le> j \<Longrightarrow> j + 4 \<le> n \<Longrightarrow> I j t \<Longrightarrow> \<exists>t'. body j t = Some t' \<and> I (j + 4) t'"
  shows "\<exists>s'. for_loop4 i n body s = Some s' \<and> I n s'"
  using assms
proof (induction "nat (n - i)" arbitrary: i s rule: less_induct)
  case less
  show ?case
  proof (cases "i = n")
    case True
    with less.prems(1) show ?thesis by (simp add: for_loop4_done)
  next
    case False
    with less.prems(2) have lt: "i < n" by simp
    with less.prems(3) have i4: "i + 4 \<le> n" by presburger
    from less.prems(4) [OF order_refl i4 less.prems(1)]
    obtain t where t: "body i s = Some t" "I (i + 4) t" by blast
    have "\<exists>s'. for_loop4 (i + 4) n body t = Some s' \<and> I n s'"
    proof (rule less.hyps)
      show "nat (n - (i + 4)) < nat (n - i)" using lt by simp
      show "I (i + 4) t" by (rule t(2))
      show "i + 4 \<le> n" by (rule i4)
      show "(n - (i + 4)) mod 4 = 0" using less.prems(3) by presburger
      fix j u assume "i + 4 \<le> j" "j + 4 \<le> n" "I j u"
      then show "\<exists>t'. body j u = Some t' \<and> I (j + 4) t'"
        using less.prems(4) [of j u] by simp
    qed
    then show ?thesis using lt t(1) by (simp add: for_loop4_step)
  qed
qed

lemma smod_4_nonneg: "0 \<le> (n::int) \<Longrightarrow> n smod 4 = n mod 4"
  by (cases "n = 0") (simp_all add: smod_int_alt_def)

lemma sum_upt_nth: "(\<Sum>k\<leftarrow>[0..<length y]. f (y ! k)) = (\<Sum>e\<leftarrow>y. f e)"
proof -
  have "map (\<lambda>k. f (y ! k)) [0..<length y] = map f (map ((!) y) [0..<length y])"
    by (simp add: comp_def)
  then show ?thesis by (simp add: map_nth)
qed

lemma dot_loop_cx_eq:
  assumes "int (length y) = n" "int (length z) = n"
  shows "dot_loop_cx n y z = Some (\<Sum>k\<leftarrow>[0..<length y]. y ! k * z ! k)"
proof -
  define S where "S = (\<lambda>j::int. \<Sum>k\<leftarrow>[0..<nat j]. y ! k * z ! k)"
  have n0: "0 \<le> n" using assms by simp
  define rem where "rem = n mod 4"
  have rem: "0 \<le> rem" "rem \<le> n" "(n - rem) mod 4 = 0"
    using n0 unfolding rem_def by presburger+
  have S_Suc: "S (j + 1) = S j + y ! nat j * z ! nat j" if "0 \<le> j" for j
  proof -
    have "nat (j + 1) = Suc (nat j)" using that by simp
    then show ?thesis by (simp add: S_def)
  qed
  let ?b1 = "\<lambda>(i::int) res. do { a \<leftarrow> rd y i; a' \<leftarrow> rd z i; Some (res + a * a') }"
  have "\<exists>r. for_loop 0 rem ?b1 0 = Some r \<and> r = S rem"
  proof (rule for_loop_rule [where I = "\<lambda>j r. r = S j"])
    show "0 = S 0" by (simp add: S_def)
    show "0 \<le> rem" by (rule rem(1))
  next
    fix j t assume j: "0 \<le> j" "j < rem" and t: "t = S j"
    then have "?b1 j t = Some (t + y ! nat j * z ! nat j)"
      using rem(2) assms by (simp add: rd_def)
    then show "\<exists>t'. ?b1 j t = Some t' \<and> t' = S (j + 1)" using t S_Suc [OF j(1)] by simp
  qed
  then have l1: "for_loop 0 rem ?b1 0 = Some (S rem)" by blast
  let ?b4 = "\<lambda>(i::int) res. do {
            a \<leftarrow> rd y i; a' \<leftarrow> rd z i;
            b \<leftarrow> rd y (i + 1); b' \<leftarrow> rd z (i + 1);
            c \<leftarrow> rd y (i + 2); c' \<leftarrow> rd z (i + 2);
            d \<leftarrow> rd y (i + 3); d' \<leftarrow> rd z (i + 3);
            Some (res + (a * a' + b * b' + c * c' + d * d'))
          }"
  have "\<exists>r. for_loop4 rem n ?b4 (S rem) = Some r \<and> r = S n"
  proof (rule for_loop4_rule [where I = "\<lambda>j r. r = S j"])
    show "S rem = S rem" ..
    show "rem \<le> n" by (rule rem(2))
    show "(n - rem) mod 4 = 0" by (rule rem(3))
  next
    fix j t assume j: "rem \<le> j" "j + 4 \<le> n" and t: "t = S j"
    have j0: "0 \<le> j" using j rem(1) by simp
    have run: "?b4 j t = Some (t + (y ! nat j * z ! nat j + y ! nat (j + 1) * z ! nat (j + 1) +
                 y ! nat (j + 2) * z ! nat (j + 2) + y ! nat (j + 3) * z ! nat (j + 3)))"
      using j j0 assms by (simp add: rd_def)
    have "S (j + 4) = S (j + 3) + y ! nat (j + 3) * z ! nat (j + 3)"
      using S_Suc [of "j + 3"] j0 by (simp add: add.assoc)
    also have "S (j + 3) = S (j + 2) + y ! nat (j + 2) * z ! nat (j + 2)"
      using S_Suc [of "j + 2"] j0 by (simp add: add.assoc)
    also have "S (j + 2) = S (j + 1) + y ! nat (j + 1) * z ! nat (j + 1)"
      using S_Suc [of "j + 1"] j0 by (simp add: add.assoc)
    also have "S (j + 1) = S j + y ! nat j * z ! nat j" using S_Suc [OF j0] .
    finally have "S (j + 4) = t + (y ! nat j * z ! nat j + y ! nat (j + 1) * z ! nat (j + 1) +
                 y ! nat (j + 2) * z ! nat (j + 2) + y ! nat (j + 3) * z ! nat (j + 3))"
      using t by (simp add: add.assoc)
    with run show "\<exists>t'. ?b4 j t = Some t' \<and> t' = S (j + 4)" by simp
  qed
  then have l4: "for_loop4 rem n ?b4 (S rem) = Some (S n)" by blast
  have "dot_loop_cx n y z = Some (S n)"
    unfolding dot_loop_cx_def Let_def smod_4_nonneg [OF n0] rem_def [symmetric]
    using l1 l4 rem(1) by (simp add: max_def)
  moreover have "nat n = length y" using assms by simp
  ultimately show ?thesis by (simp add: S_def)
qed

lemma norm_loop_cx_dot: "norm_loop_cx n y = dot_loop_cx n y y"
proof -
  have b1: "(\<lambda>(i::int) res. do { a \<leftarrow> rd y i; Some (res + a * a) }) =
            (\<lambda>i res. do { a \<leftarrow> rd y i; a' \<leftarrow> rd y i; Some (res + a * a') })"
    by (auto simp: fun_eq_iff split: Option.bind_split)
  have b4: "(\<lambda>(i::int) res. do {
            a \<leftarrow> rd y i; b \<leftarrow> rd y (i + 1); c \<leftarrow> rd y (i + 2); d \<leftarrow> rd y (i + 3);
            Some (res + (a * a + b * b + c * c + d * d))
          }) =
          (\<lambda>i res. do {
            a \<leftarrow> rd y i; a' \<leftarrow> rd y i;
            b \<leftarrow> rd y (i + 1); b' \<leftarrow> rd y (i + 1);
            c \<leftarrow> rd y (i + 2); c' \<leftarrow> rd y (i + 2);
            d \<leftarrow> rd y (i + 3); d' \<leftarrow> rd y (i + 3);
            Some (res + (a * a' + b * b' + c * c' + d * d'))
          })"
    by (auto simp: fun_eq_iff split: Option.bind_split)
  show ?thesis unfolding norm_loop_cx_def dot_loop_cx_def b1 b4 ..
qed

lemma norm_loop_cx_eq:
  "int (length y) = n \<Longrightarrow> norm_loop_cx n y = Some (\<Sum>e\<leftarrow>y. e * e)"
  using dot_loop_cx_eq [of y n y] sum_upt_nth [of "\<lambda>e. e * e" y]
  by (simp add: norm_loop_cx_dot)

lemma dot_collect_all_Inr:
  "dot_collect (map (\<lambda>c. Inr (f c)) cs) = map (\<lambda>c. Some (sum_list (map f cs))) cs"
proof -
  have c: "concat (map (\<lambda>r. case r of Inl _ \<Rightarrow> [] | Inr res \<Rightarrow> [res]) (map (\<lambda>c. Inr (f c) :: 'a + 'a) cs))
           = map f cs"
    by (induction cs) auto
  have e: "\<not> list_ex isl (map (\<lambda>c. Inr (f c) :: 'a + 'a) cs)"
    by (induction cs) auto
  show ?thesis
    unfolding dot_collect_def c using e by (simp add: MPI_Allreduce_SUM_def Let_def comp_def)
qed

lemma norm_squared_is_dot_cx:
  assumes "\<forall>c\<in>set cs. int (length (snd c)) = fst c"
  shows "norm_all_cx cs = Some (csqrt (\<Sum>c\<leftarrow>cs. \<Sum>e\<leftarrow>snd c. e * e)) \<and>
         dot_all_cx cs cs = Some (map (\<lambda>d. Some (\<Sum>c\<leftarrow>cs. \<Sum>e\<leftarrow>snd c. e * e)) cs) \<and>
         (csqrt (\<Sum>c\<leftarrow>cs. \<Sum>e\<leftarrow>snd c. e * e)) ^ 2 = (\<Sum>c\<leftarrow>cs. \<Sum>e\<leftarrow>snd c. e * e)"
proof -
  let ?sq = "\<lambda>c :: int \<times> complex list. \<Sum>e\<leftarrow>snd c. e * e"
  let ?S = "sum_list (map ?sq cs)"
  have "\<forall>c\<in>set cs. (case c of (sz, y) \<Rightarrow> norm_loop_cx sz y) = Some (?sq c)"
  proof
    fix c assume "c \<in> set cs"
    with assms have "int (length (snd c)) = fst c" by blast
    then show "(case c of (sz, y) \<Rightarrow> norm_loop_cx sz y) = Some (?sq c)"
      by (cases c) (simp add: norm_loop_cx_eq)
  qed
  then have n: "those (map (\<lambda>(sz, y). norm_loop_cx sz y) cs) = Some (map ?sq cs)"
    by (intro those_map_Some) blast
  have z: "map (\<lambda>(this, vec). dot_res_cx this vec) (zip cs cs) = map (\<lambda>c. dot_res_cx c c) cs"
    by (induction cs) auto
  have "\<forall>c\<in>set cs. dot_res_cx c c = Some (Inr (?sq c))"
  proof
    fix c assume "c \<in> set cs"
    with assms have l: "int (length (snd c)) = fst c" by blast
    show "dot_res_cx c c = Some (Inr (?sq c))"
      using dot_loop_cx_eq [OF l l] sum_upt_nth [of "\<lambda>e. e * e" "snd c"]
      by (cases c) (simp add: dot_res_cx_def)
  qed
  then have d: "those (map (\<lambda>c. dot_res_cx c c) cs) = Some (map (\<lambda>c. Inr (?sq c)) cs)"
    by (intro those_map_Some) blast
  have "norm_all_cx cs = Some (csqrt ?S)"
    by (simp add: norm_all_cx_def n MPI_Allreduce_SUM_def)
  moreover have "dot_all_cx cs cs = Some (map (\<lambda>c. Some ?S) cs)"
    unfolding dot_all_cx_def z d by (simp add: dot_collect_all_Inr)
  moreover have "(csqrt ?S) ^ 2 = ?S" by (rule power2_csqrt)
  ultimately show ?thesis by simp
qed

text \<open>
  C9: for the pieces of a vector on any number of ranks, \<open>norm\<close> returns on every rank
  the square root of \<open>S\<close>, and \<open>dot\<close> of the vector with itself returns on every rank
  \<open>S\<close>, where \<open>S\<close> is the sum, over all ranks, of the squares of the owned values of the
  rank: both reduce the sums of the squares with \<^verbatim>\<open>MPI_SUM\<close>, and \<open>norm\<close> takes the root
  after the reduction. Hence the value of \<open>dot\<close> is the square of the value of \<open>norm\<close>.
  This holds in the real build (\<open>vs\<close>; the sums come from the BLAS) and in the complex
  build (\<open>cs\<close>; the sums come from the unrolled loops, the squares are not conjugated
  and the root is the complex one), in exact arithmetic.
\<close>

theorem norm_squared_is_dot:
  assumes "\<forall>v\<in>set vs. alloc_ok v" and "\<forall>c\<in>set cs. int (length (snd c)) = fst c"
  shows "norm_all vs = Some (sqrt (\<Sum>v\<leftarrow>vs. \<Sum>e\<leftarrow>x_loc v. e * e)) \<and>
         dot_all vs (map (\<lambda>v. Some (BVec v)) vs) =
           Some (map (\<lambda>w. Some (\<Sum>v\<leftarrow>vs. \<Sum>e\<leftarrow>x_loc v. e * e)) vs) \<and>
         (\<exists>nrm. norm_all vs = Some nrm \<and>
            dot_all vs (map (\<lambda>v. Some (BVec v)) vs) = Some (map (\<lambda>v. Some (nrm ^ 2)) vs)) \<and>
         norm_all_cx cs = Some (csqrt (\<Sum>c\<leftarrow>cs. \<Sum>e\<leftarrow>snd c. e * e)) \<and>
         dot_all_cx cs cs = Some (map (\<lambda>d. Some (\<Sum>c\<leftarrow>cs. \<Sum>e\<leftarrow>snd c. e * e)) cs) \<and>
         (\<exists>nrm. norm_all_cx cs = Some nrm \<and>
            dot_all_cx cs cs = Some (map (\<lambda>c. Some (nrm ^ 2)) cs))"
proof -
  note re = norm_squared_is_dot_real [OF assms(1)]
  note cx = norm_squared_is_dot_cx [OF assms(2)]
  have "\<exists>nrm. norm_all vs = Some nrm \<and>
            dot_all vs (map (\<lambda>v. Some (BVec v)) vs) = Some (map (\<lambda>v. Some (nrm ^ 2)) vs)"
    using re by simp
  moreover have "\<exists>nrm. norm_all_cx cs = Some nrm \<and>
            dot_all_cx cs cs = Some (map (\<lambda>c. Some (nrm ^ 2)) cs)"
    using cx by simp
  ultimately show ?thesis using re cx by blast
qed

theorem norm_squared_is_dot_witness:
  "alloc_ok ex_vec \<and> alloc_ok ex_vec1 \<and>
   norm_all [ex_vec, ex_vec1] = Some 6 \<and>
   dot_all [ex_vec, ex_vec1] [Some (BVec ex_vec), Some (BVec ex_vec1)] = Some [Some 36, Some 36] \<and>
   norm_all_cx [(5, [\<i>, 1, 1, 1, 1]), (1, [1])] = Some (csqrt 4) \<and>
   dot_all_cx [(5, [\<i>, 1, 1, 1, 1]), (1, [1])] [(5, [\<i>, 1, 1, 1, 1]), (1, [1])]
     = Some [Some 4, Some 4]"
proof -
  have a: "alloc_ok ex_vec1" by (simp add: alloc_ok_def ex_vec1_def ex_vec_def)
  have h: "\<forall>v\<in>set [ex_vec, ex_vec1]. alloc_ok v" using a alloc_ok_ex_vec by simp
  have hc: "\<forall>c\<in>set [(5, [\<i>, 1, 1, 1, 1]), (1 :: int, [1 :: complex])]. int (length (snd c)) = fst c"
    by simp
  have r: "sqrt 36 = 6" using real_sqrt_abs [of 6] by simp
  have sr: "(\<Sum>v\<leftarrow>[ex_vec, ex_vec1]. \<Sum>e\<leftarrow>x_loc v. e * e) = 36"
    by (simp add: ex_vec1_def ex_vec_def)
  have sc: "(\<Sum>c\<leftarrow>[(5, [\<i>, 1, 1, 1, 1]), (1 :: int, [1 :: complex])]. \<Sum>e\<leftarrow>snd c. e * e) = 4"
    by simp
  from norm_squared_is_dot [OF h hc] show ?thesis
    unfolding sr sc using a alloc_ok_ex_vec by (simp add: r)
qed

subsection \<open>Applying the boundary conditions\<close>

lemma for_loop_rule_any:
  assumes "I i s"
    and step: "\<And>j t. i \<le> j \<Longrightarrow> j < n \<Longrightarrow> I j t \<Longrightarrow> \<exists>t'. body j t = Some t' \<and> I (j + 1) t'"
  shows "\<exists>s'. for_loop i n body s = Some s' \<and> I (max i n) s'"
proof (cases "i \<le> n")
  case True
  then show ?thesis using for_loop_rule [of I i s n body] assms by (simp add: max_def)
next
  case False
  then show ?thesis using assms(1) by (simp add: for_loop_done max_def)
qed

lemma rd_Some: "0 \<le> i \<Longrightarrow> i < int (length a) \<Longrightarrow> rd a i = Some (a ! nat i)"
  by (simp add: rd_def)

lemma wr_Some: "0 \<le> i \<Longrightarrow> i < int (length a) \<Longrightarrow> wr a i x = Some (a[nat i := x])"
  by (simp add: wr_def)

lemma owned_Some:
  "0 \<le> r \<Longrightarrow> r + 1 < int (length orange) \<Longrightarrow>
   owned orange r g = Some (orange ! nat r \<le> g \<and> g < orange ! nat (r + 1))"
  by (simp add: owned_def rd_def)

text \<open>The loop over the variables of one boundary condition.\<close>

lemma zero_loop:
  assumes "\<forall>k. k0 \<le> k \<and> k < k1 \<longrightarrow>
             0 \<le> k \<and> k < int (length vars) \<and> 0 \<le> var + vars ! nat k \<and>
             var + vars ! nat k < int (length xs0)"
  shows "\<exists>xs. for_loop k0 k1 (\<lambda>k xs. do { d \<leftarrow> rd vars k; wr xs (var + d) 0 }) xs0 = Some xs \<and>
           length xs = length xs0 \<and>
           (\<forall>p<length xs. xs ! p =
              (if \<exists>k. k0 \<le> k \<and> k < k1 \<and> var + vars ! nat k = int p then 0 else xs0 ! p))"
proof -
  let ?I = "\<lambda>j xs. length xs = length xs0 \<and>
           (\<forall>p<length xs. xs ! p =
              (if \<exists>k. k0 \<le> k \<and> k < j \<and> k < k1 \<and> var + vars ! nat k = int p then 0 else xs0 ! p))"
  have "\<exists>xs. for_loop k0 k1 (\<lambda>k xs. do { d \<leftarrow> rd vars k; wr xs (var + d) 0 }) xs0 = Some xs \<and>
          ?I (max k0 k1) xs"
  proof (rule for_loop_rule_any [where I = ?I])
    show "?I k0 xs0" by auto
  next
    fix j t assume j: "k0 \<le> j" "j < k1" and I: "?I j t"
    from assms j have b: "0 \<le> j" "j < int (length vars)" "0 \<le> var + vars ! nat j"
      "var + vars ! nat j < int (length xs0)" by auto
    let ?t' = "t[nat (var + vars ! nat j) := 0]"
    have run: "do { d \<leftarrow> rd vars j; wr t (var + d) 0 } = Some ?t'"
      using b I by (simp add: rd_Some wr_Some)
    have "?I (j + 1) ?t'"
    proof (intro conjI allI impI)
      show "length ?t' = length xs0" using I by simp
    next
      fix p assume p: "p < length ?t'"
      show "?t' ! p = (if \<exists>k. k0 \<le> k \<and> k < j + 1 \<and> k < k1 \<and> var + vars ! nat k = int p
                       then 0 else xs0 ! p)"
      proof (cases "int p = var + vars ! nat j")
        case True
        then have "nat (var + vars ! nat j) = p" by simp
        moreover have "\<exists>k. k0 \<le> k \<and> k < j + 1 \<and> k < k1 \<and> var + vars ! nat k = int p"
          using True j by (intro exI [of _ j]) simp
        ultimately show ?thesis using p by simp
      next
        case False
        then have ne: "nat (var + vars ! nat j) \<noteq> p" using b by auto
        have "(\<exists>k. k0 \<le> k \<and> k < j + 1 \<and> k < k1 \<and> var + vars ! nat k = int p) \<longleftrightarrow>
              (\<exists>k. k0 \<le> k \<and> k < j \<and> k < k1 \<and> var + vars ! nat k = int p)"
        proof
          assume "\<exists>k. k0 \<le> k \<and> k < j + 1 \<and> k < k1 \<and> var + vars ! nat k = int p"
          then obtain k where k: "k0 \<le> k" "k < j + 1" "k < k1" "var + vars ! nat k = int p" by blast
          with False have "k \<noteq> j" by auto
          with k show "\<exists>k. k0 \<le> k \<and> k < j \<and> k < k1 \<and> var + vars ! nat k = int p" by force
        next
          assume "\<exists>k. k0 \<le> k \<and> k < j \<and> k < k1 \<and> var + vars ! nat k = int p"
          then show "\<exists>k. k0 \<le> k \<and> k < j + 1 \<and> k < k1 \<and> var + vars ! nat k = int p" by force
        qed
        then show ?thesis using I p ne by simp
      qed
    qed
    with run show "\<exists>t'. do { d \<leftarrow> rd vars j; wr t (var + d) 0 } = Some t' \<and> ?I (j + 1) t'"
      by blast
  qed
  then obtain xs where xs: "for_loop k0 k1 (\<lambda>k xs. do { d \<leftarrow> rd vars k; wr xs (var + d) 0 }) xs0 = Some xs"
    "?I (max k0 k1) xs" by blast
  have "\<And>p. (\<exists>k. k0 \<le> k \<and> k < max k0 k1 \<and> k < k1 \<and> var + vars ! nat k = int p) \<longleftrightarrow>
     (\<exists>k. k0 \<le> k \<and> k < k1 \<and> var + vars ! nat k = int p)"
    by (auto simp: max_def)
  with xs show ?thesis by simp
qed

lemma applyBCs_values_unused:
  "map_option x_loc (applyBCs (v\<lparr> bcs := Some (bc\<lparr> bc_values := vals \<rparr>) \<rparr>)) =
   map_option x_loc (applyBCs (v\<lparr> bcs := Some bc \<rparr>))"
  by (simp add: applyBCs_def Let_def map_option_bind comp_def cong: if_cong)

lemma applyBCs_loop:
  fixes bc :: TACSBcMap and orange :: "int list" and x0 :: "real list" and r B :: int
  defines "lo \<equiv> orange ! nat r" and "hi \<equiv> orange ! nat (r + 1)"
  defines "pos \<equiv> \<lambda>i k. B * (bc_global bc ! nat i - lo) + bc_vars bc ! nat k"
  defines "constrained \<equiv> \<lambda>i k. 0 \<le> i \<and> i < nbcs bc \<and> lo \<le> bc_global bc ! nat i \<and>
      bc_global bc ! nat i < hi \<and> bc_var_ptr bc ! nat i \<le> k \<and> k < bc_var_ptr bc ! nat (i + 1)"
  assumes r: "0 \<le> r" "r + 1 < int (length orange)"
    and len: "nbcs bc \<le> int (length (bc_global bc))" "nbcs bc < int (length (bc_var_ptr bc))"
    and inb: "\<forall>i k. constrained i k \<longrightarrow> 0 \<le> k \<and> k < int (length (bc_vars bc)) \<and>
                0 \<le> pos i k \<and> pos i k < int (length x0)"
  shows "\<exists>xs. for_loop 0 (nbcs bc)
                (\<lambda>i xs.
                   do {
                     g \<leftarrow> rd (bc_global bc) i;
                     own \<leftarrow> owned orange r g;
                     if own then
                       do {
                         lo \<leftarrow> rd orange r;
                         let var = B * (g - lo);
                         k0 \<leftarrow> rd (bc_var_ptr bc) i;
                         k1 \<leftarrow> rd (bc_var_ptr bc) (i + 1);
                         for_loop k0 k1
                           (\<lambda>k xs. do { d \<leftarrow> rd (bc_vars bc) k; wr xs (var + d) 0 }) xs
                       }
                     else Some xs
                   }) x0 = Some xs \<and>
           length xs = length x0 \<and>
           (\<forall>p<length xs. xs ! p = (if \<exists>i k. constrained i k \<and> pos i k = int p then 0 else x0 ! p))"
    (is "\<exists>xs. for_loop 0 _ ?body x0 = Some xs \<and> _")
proof -
  let ?I = "\<lambda>j xs. length xs = length x0 \<and>
     (\<forall>p<length xs. xs ! p = (if \<exists>i k. constrained i k \<and> i < j \<and> pos i k = int p then 0 else x0 ! p))"
  have "\<exists>xs. for_loop 0 (nbcs bc) ?body x0 = Some xs \<and> ?I (max 0 (nbcs bc)) xs"
  proof (rule for_loop_rule_any [where I = ?I])
    show "?I 0 x0" by (auto simp: constrained_def)
  next
    fix j t assume j: "0 \<le> j" "j < nbcs bc" and I: "?I j t"
    let ?g = "bc_global bc ! nat j"
    have g: "rd (bc_global bc) j = Some ?g" using j len by (simp add: rd_Some)
    have own: "owned orange r ?g = Some (lo \<le> ?g \<and> ?g < hi)"
      using r by (simp add: owned_Some lo_def hi_def)
    show "\<exists>t'. ?body j t = Some t' \<and> ?I (j + 1) t'"
    proof (cases "lo \<le> ?g \<and> ?g < hi")
      case False
      then have "?body j t = Some t" using g own by auto
      moreover have "\<And>p. (\<exists>i k. constrained i k \<and> i < j + 1 \<and> pos i k = int p) \<longleftrightarrow>
                          (\<exists>i k. constrained i k \<and> i < j \<and> pos i k = int p)"
      proof
        fix p assume "\<exists>i k. constrained i k \<and> i < j + 1 \<and> pos i k = int p"
        then obtain i k where ik: "constrained i k" "i < j + 1" "pos i k = int p" by blast
        with False have "i \<noteq> j" by (auto simp: constrained_def)
        with ik show "\<exists>i k. constrained i k \<and> i < j \<and> pos i k = int p" by force
      next
        fix p assume "\<exists>i k. constrained i k \<and> i < j \<and> pos i k = int p"
        then show "\<exists>i k. constrained i k \<and> i < j + 1 \<and> pos i k = int p" by force
      qed
      ultimately show ?thesis using I by simp
    next
      case True
      let ?k0 = "bc_var_ptr bc ! nat j" and ?k1 = "bc_var_ptr bc ! nat (j + 1)"
      let ?var = "B * (?g - lo)"
      have cj: "\<And>k. ?k0 \<le> k \<and> k < ?k1 \<longleftrightarrow> constrained j k"
        using True j by (auto simp: constrained_def)
      have "\<forall>k. ?k0 \<le> k \<and> k < ?k1 \<longrightarrow>
             0 \<le> k \<and> k < int (length (bc_vars bc)) \<and> 0 \<le> ?var + bc_vars bc ! nat k \<and>
             ?var + bc_vars bc ! nat k < int (length t)"
        using inb cj I by (auto simp: pos_def)
      from zero_loop [OF this] obtain t' where t':
        "for_loop ?k0 ?k1 (\<lambda>k xs. do { d \<leftarrow> rd (bc_vars bc) k; wr xs (?var + d) 0 }) t = Some t'"
        "length t' = length t"
        "\<forall>p<length t'. t' ! p =
              (if \<exists>k. ?k0 \<le> k \<and> k < ?k1 \<and> ?var + bc_vars bc ! nat k = int p then 0 else t ! p)"
        by blast
      have run: "?body j t = Some t'"
        using g own True j len r t'(1) by (simp add: rd_Some lo_def)
      have "?I (j + 1) t'"
      proof (intro conjI allI impI)
        show "length t' = length x0" using t'(2) I by simp
      next
        fix p assume p: "p < length t'"
        have split: "(\<exists>i k. constrained i k \<and> i < j + 1 \<and> pos i k = int p) \<longleftrightarrow>
              (\<exists>k. ?k0 \<le> k \<and> k < ?k1 \<and> ?var + bc_vars bc ! nat k = int p) \<or>
              (\<exists>i k. constrained i k \<and> i < j \<and> pos i k = int p)" (is "?L \<longleftrightarrow> ?A \<or> ?C")
        proof
          assume ?L
          then obtain i k where ik: "constrained i k" "i < j + 1" "pos i k = int p" by blast
          show "?A \<or> ?C"
          proof (cases "i = j")
            case True
            with ik cj have "?k0 \<le> k \<and> k < ?k1 \<and> ?var + bc_vars bc ! nat k = int p"
              by (simp add: pos_def)
            then show ?thesis by blast
          next
            case False
            with ik have "i < j" by simp
            with ik show ?thesis by blast
          qed
        next
          assume "?A \<or> ?C"
          then show ?L
          proof
            assume ?A
            then obtain k where "?k0 \<le> k \<and> k < ?k1" "?var + bc_vars bc ! nat k = int p" by blast
            with cj have "constrained j k \<and> j < j + 1 \<and> pos j k = int p" by (simp add: pos_def)
            then show ?L by blast
          next
            assume ?C then show ?L by force
          qed
        qed
        show "t' ! p = (if \<exists>i k. constrained i k \<and> i < j + 1 \<and> pos i k = int p then 0 else x0 ! p)"
          using t'(3) t'(2) p I unfolding split by auto
      qed
      with run show ?thesis by blast
    qed
  qed
  then obtain xs where xs: "for_loop 0 (nbcs bc) ?body x0 = Some xs" "?I (max 0 (nbcs bc)) xs"
    by blast
  have "\<And>p. (\<exists>i k. constrained i k \<and> i < max 0 (nbcs bc) \<and> pos i k = int p) \<longleftrightarrow>
            (\<exists>i k. constrained i k \<and> pos i k = int p)"
    by (auto simp: constrained_def max_def)
  with xs show ?thesis by simp
qed

text \<open>
  C5: on a vector with a boundary-condition list, \<open>applyBCs\<close> returns the vector with
  only the owned values changed (the ghost and dependent arrays, and every other field,
  are those of \<open>v\<close>); the entry at \<open>B\<cdot>(global[i] - owner_range[r]) + vars[k]\<close> is 0 for
  every record \<open>i\<close> whose node lies in the owned range and every \<open>k\<close> of its span, and
  every other entry is as before. The result is the same whatever the stored values
  are. The hypotheses say that the accesses the source makes are inside the arrays.
\<close>

theorem applyBCs_zeroes_constrained:
  fixes v :: "'c TACSBVec" and bc :: TACSBcMap and vm :: TACSVarMap
  defines "r \<equiv> comm_rank (comm v)"
  defines "lo \<equiv> owner_range vm ! nat r" and "hi \<equiv> owner_range vm ! nat (r + 1)"
  defines "pos \<equiv> \<lambda>i k. bsize v * (bc_global bc ! nat i - lo) + bc_vars bc ! nat k"
  defines "constrained \<equiv> \<lambda>i k. 0 \<le> i \<and> i < nbcs bc \<and> lo \<le> bc_global bc ! nat i \<and>
      bc_global bc ! nat i < hi \<and> bc_var_ptr bc ! nat i \<le> k \<and> k < bc_var_ptr bc ! nat (i + 1)"
  assumes "bcs v = Some bc" and "var_map v = Some vm"
    and "0 \<le> r" and "r + 1 < int (length (owner_range vm))"
    and "nbcs bc \<le> int (length (bc_global bc))" and "nbcs bc < int (length (bc_var_ptr bc))"
    and "\<forall>i k. constrained i k \<longrightarrow> 0 \<le> k \<and> k < int (length (bc_vars bc)) \<and>
                0 \<le> pos i k \<and> pos i k < int (length (x_loc v))"
  shows "\<exists>xs. applyBCs v = Some (v\<lparr> x_loc := xs \<rparr>) \<and> length xs = length (x_loc v) \<and>
           (\<forall>p<length xs. xs ! p =
              (if \<exists>i k. constrained i k \<and> pos i k = int p then 0 else x_loc v ! p)) \<and>
           (\<forall>vals. map_option x_loc (applyBCs (v\<lparr> bcs := Some (bc\<lparr> bc_values := vals \<rparr>) \<rparr>))
                    = Some xs)"
proof -
  from applyBCs_loop [of r "owner_range vm" bc "bsize v" "x_loc v"] assms(8-)
  obtain xs where xs: "for_loop 0 (nbcs bc)
                (\<lambda>i xs.
                   do {
                     g \<leftarrow> rd (bc_global bc) i;
                     own \<leftarrow> owned (owner_range vm) r g;
                     if own then
                       do {
                         lo \<leftarrow> rd (owner_range vm) r;
                         let var = bsize v * (g - lo);
                         k0 \<leftarrow> rd (bc_var_ptr bc) i;
                         k1 \<leftarrow> rd (bc_var_ptr bc) (i + 1);
                         for_loop k0 k1
                           (\<lambda>k xs. do { d \<leftarrow> rd (bc_vars bc) k; wr xs (var + d) 0 }) xs
                       }
                     else Some xs
                   }) (x_loc v) = Some xs"
    "length xs = length (x_loc v)"
    "\<forall>p<length xs. xs ! p = (if \<exists>i k. constrained i k \<and> pos i k = int p then 0 else x_loc v ! p)"
    unfolding constrained_def pos_def lo_def hi_def by blast
  have run: "applyBCs v = Some (v\<lparr> x_loc := xs \<rparr>)"
    using assms(6,7) xs(1) unfolding applyBCs_def r_def Let_def by simp
  have "v\<lparr> bcs := Some bc \<rparr> = v" using assms(6) by simp
  then have "\<forall>vals. map_option x_loc (applyBCs (v\<lparr> bcs := Some (bc\<lparr> bc_values := vals \<rparr>) \<rparr>)) = Some xs"
    using run by (simp add: applyBCs_values_unused)
  with run xs(2,3) show ?thesis by blast
qed

theorem applyBCs_zeroes_constrained_witness:
  "bcs ex_vec = Some ex_bcs \<and> var_map ex_vec = Some ex_map \<and>
   applyBCs ex_vec = Some (ex_vec\<lparr> x_loc := [1, 2, 0, 4] \<rparr>) \<and>
   applyBCs (ex_vec\<lparr> bcs := Some (ex_bcs\<lparr> bc_values := [5] \<rparr>) \<rparr>) =
     Some (ex_vec\<lparr> bcs := Some (ex_bcs\<lparr> bc_values := [5] \<rparr>), x_loc := [1, 2, 0, 4] \<rparr>)"
proof -
  have a: "bcs ex_vec = Some ex_bcs" "var_map ex_vec = Some ex_map"
    by (simp_all add: ex_vec_def)
  have b: "0 \<le> comm_rank (comm ex_vec)"
    "comm_rank (comm ex_vec) + 1 < int (length (owner_range ex_map))"
    "nbcs ex_bcs \<le> int (length (bc_global ex_bcs))"
    "nbcs ex_bcs < int (length (bc_var_ptr ex_bcs))"
    by (simp_all add: ex_vec_def ex_map_def ex_bcs_def)
  have c: "\<forall>i k. (0 \<le> i \<and> i < nbcs ex_bcs \<and>
        owner_range ex_map ! nat (comm_rank (comm ex_vec)) \<le> bc_global ex_bcs ! nat i \<and>
        bc_global ex_bcs ! nat i < owner_range ex_map ! nat (comm_rank (comm ex_vec) + 1) \<and>
        bc_var_ptr ex_bcs ! nat i \<le> k \<and> k < bc_var_ptr ex_bcs ! nat (i + 1)) \<longrightarrow>
      0 \<le> k \<and> k < int (length (bc_vars ex_bcs)) \<and>
      0 \<le> bsize ex_vec * (bc_global ex_bcs ! nat i -
             owner_range ex_map ! nat (comm_rank (comm ex_vec))) + bc_vars ex_bcs ! nat k \<and>
      bsize ex_vec * (bc_global ex_bcs ! nat i -
             owner_range ex_map ! nat (comm_rank (comm ex_vec))) + bc_vars ex_bcs ! nat k
        < int (length (x_loc ex_vec))"
  proof (intro allI impI)
    fix i k :: int
    assume h: "0 \<le> i \<and> i < nbcs ex_bcs \<and>
        owner_range ex_map ! nat (comm_rank (comm ex_vec)) \<le> bc_global ex_bcs ! nat i \<and>
        bc_global ex_bcs ! nat i < owner_range ex_map ! nat (comm_rank (comm ex_vec) + 1) \<and>
        bc_var_ptr ex_bcs ! nat i \<le> k \<and> k < bc_var_ptr ex_bcs ! nat (i + 1)"
    then have i: "i = 0" by (simp add: ex_bcs_def)
    with h have "k = 0" by (simp add: ex_bcs_def)
    with i show "0 \<le> k \<and> k < int (length (bc_vars ex_bcs)) \<and>
      0 \<le> bsize ex_vec * (bc_global ex_bcs ! nat i -
             owner_range ex_map ! nat (comm_rank (comm ex_vec))) + bc_vars ex_bcs ! nat k \<and>
      bsize ex_vec * (bc_global ex_bcs ! nat i -
             owner_range ex_map ! nat (comm_rank (comm ex_vec))) + bc_vars ex_bcs ! nat k
        < int (length (x_loc ex_vec))"
      by (simp add: ex_bcs_def ex_vec_def ex_map_def)
  qed
  have e: "applyBCs ex_vec = Some (ex_vec\<lparr> x_loc := [1, 2, 0, 4] \<rparr>)"
    by (simp add: applyBCs_def ex_vec_def ex_map_def ex_bcs_def owned_def rd_def wr_def
        for_loop.simps)
  from applyBCs_zeroes_constrained [OF a b c]
  obtain xs where xs: "applyBCs ex_vec = Some (ex_vec\<lparr> x_loc := xs \<rparr>)"
    "\<forall>vals. map_option x_loc (applyBCs (ex_vec\<lparr> bcs := Some (ex_bcs\<lparr> bc_values := vals \<rparr>) \<rparr>))
          = Some xs"
    by blast
  from xs(1) e have "x_loc (ex_vec\<lparr> x_loc := xs \<rparr>) = x_loc (ex_vec\<lparr> x_loc := [1, 2, 0, 4] \<rparr>)"
    by simp
  then have "xs = [1, 2, 0, 4]" by simp
  with xs(2)
  have "\<forall>vals. map_option x_loc (applyBCs (ex_vec\<lparr> bcs := Some (ex_bcs\<lparr> bc_values := vals \<rparr>) \<rparr>))
          = Some [1, 2, 0, 4]"
    by simp
  then have "map_option x_loc (applyBCs (ex_vec\<lparr> bcs := Some (ex_bcs\<lparr> bc_values := [5] \<rparr>) \<rparr>))
          = Some [1, 2, 0, 4]" by blast
  moreover have "applyBCs (ex_vec\<lparr> bcs := Some (ex_bcs\<lparr> bc_values := [5] \<rparr>) \<rparr>) =
     Some (ex_vec\<lparr> bcs := Some (ex_bcs\<lparr> bc_values := [5] \<rparr>), x_loc := [1, 2, 0, 4] \<rparr>)"
    by (simp add: applyBCs_def ex_vec_def ex_map_def ex_bcs_def owned_def rd_def wr_def
        for_loop.simps)
  ultimately show ?thesis using a e by simp
qed

subsection \<open>Random values on several ranks\<close>

lemma rand_adv_0 [simp]: "rand_adv rand 0 g = g"
  by (simp add: rand_adv_def)

lemma rand_adv_Suc: "rand_adv rand (Suc n) g = snd (rand (rand_adv rand n g))"
  by (simp add: rand_adv_def)

lemma rand_adv_add: "rand_adv rand (a + b) g = rand_adv rand b (rand_adv rand a g)"
  by (induction b) (simp_all add: rand_adv_Suc)

lemma length_rand_draws [simp]: "length (rand_draws rand n g) = n"
  by (simp add: rand_draws_def)

lemma rand_draws_Suc:
  "rand_draws rand (Suc n) g = rand_draws rand n g @ [fst (rand (rand_adv rand n g))]"
  by (simp add: rand_draws_def)

lemma rand_draws_add:
  "rand_draws rand (a + b) g = rand_draws rand a g @ rand_draws rand b (rand_adv rand a g)"
  by (induction b) (simp_all add: rand_draws_Suc rand_adv_add rand_draws_def)

lemma skip_rand_eq: "skip_rand rand i0 e g = Some (rand_adv rand (nat (e - i0)) g)"
proof -
  let ?I = "\<lambda>j g'. g' = rand_adv rand (nat (j - i0)) g"
  have "\<exists>g'. for_loop i0 e (\<lambda>i g. Some (snd (rand g))) g = Some g' \<and> ?I (max i0 e) g'"
  proof (rule for_loop_rule_any [where I = ?I])
    show "?I i0 g" by simp
  next
    fix j t assume "i0 \<le> j" "j < e" "?I j t"
    then have "snd (rand t) = rand_adv rand (Suc (nat (j - i0))) g"
      by (simp add: rand_adv_Suc)
    moreover have "Suc (nat (j - i0)) = nat (j + 1 - i0)" using \<open>i0 \<le> j\<close> by simp
    ultimately show "\<exists>t'. Some (snd (rand t)) = Some t' \<and> ?I (j + 1) t'" by simp
  qed
  moreover have "nat (max i0 e - i0) = nat (e - i0)" by (simp add: max_def)
  ultimately show ?thesis by (simp add: skip_rand_def)
qed

lemma fill_rand_eq:
  assumes "n = int (length xs)"
  shows "fill_rand rand rmax lower upper n (xs, g) =
           Some (map (rand_scalar lower upper rmax) (rand_draws rand (length xs) g),
                 rand_adv rand (length xs) g)"
proof -
  let ?sc = "rand_scalar lower upper rmax"
  let ?body = "\<lambda>(i::int) (xs, g). case rand g of
                      (r, g') \<Rightarrow> do { xs' \<leftarrow> wr xs i (?sc r); Some (xs', g') }"
  let ?I = "\<lambda>j (ys, g'). ys = map ?sc (rand_draws rand (nat j) g) @ drop (nat j) xs \<and>
                g' = rand_adv rand (nat j) g"
  have "\<exists>s'. for_loop 0 n ?body (xs, g) = Some s' \<and> ?I n s'"
  proof (rule for_loop_rule [where I = ?I])
    show "?I 0 (xs, g)" by (simp add: rand_draws_def)
    show "0 \<le> n" using assms by simp
  next
    fix j :: int and t :: "real list \<times> 'a"
    assume j: "0 \<le> j" "j < n" and I: "?I j t"
    obtain ys g' where t: "t = (ys, g')" by (cases t)
    obtain r g'' where rg: "rand g' = (r, g'')" by (cases "rand g'")
    from I t have ys: "ys = map ?sc (rand_draws rand (nat j) g) @ drop (nat j) xs"
      and g': "g' = rand_adv rand (nat j) g" by simp_all
    have jl: "nat j < length xs" using j assms by simp
    have len: "length ys = length xs" using ys jl by simp
    have sj: "nat (j + 1) = Suc (nat j)" using j by simp
    have "ys[nat j := ?sc r] = map ?sc (rand_draws rand (nat j) g) @ (drop (nat j) xs)[0 := ?sc r]"
      by (simp add: ys list_update_append)
    also have "(drop (nat j) xs)[0 := ?sc r] = ?sc r # drop (Suc (nat j)) xs"
      using jl by (simp add: Cons_nth_drop_Suc [symmetric])
    finally have upd: "ys[nat j := ?sc r] =
        map ?sc (rand_draws rand (Suc (nat j)) g) @ drop (Suc (nat j)) xs"
      using rg g' by (simp add: rand_draws_Suc)
    have "?body j t = Some (ys[nat j := ?sc r], g'')"
      using t rg j jl len by (simp add: wr_def)
    moreover have "?I (j + 1) (ys[nat j := ?sc r], g'')"
      using upd rg g' by (simp add: sj rand_adv_Suc)
    ultimately show "\<exists>t'. ?body j t = Some t' \<and> ?I (j + 1) t'" by blast
  qed
  then show ?thesis using assms by (auto simp: fill_rand_def)
qed

lemma prefix_nonneg:
  fixes B :: int and orange :: "int list"
  assumes "\<forall>k<P. 0 \<le> B * (orange ! Suc k - orange ! k)"
  shows "k \<le> P \<Longrightarrow> 0 \<le> B * (orange ! k - orange ! 0)"
proof (induction k)
  case 0
  then show ?case by simp
next
  case (Suc k)
  then have "0 \<le> B * (orange ! k - orange ! 0)" "0 \<le> B * (orange ! Suc k - orange ! k)"
    using assms by simp_all
  then have "0 \<le> B * (orange ! k - orange ! 0) + B * (orange ! Suc k - orange ! k)" by simp
  then show ?case by (simp add: algebra_simps)
qed

lemma setRand_rank:
  fixes v :: "'c TACSBVec" and rand :: "'g \<Rightarrow> int \<times> 'g"
  assumes vm: "var_map v = Some vm"
    and r: "0 \<le> comm_rank (comm v)" "comm_rank (comm v) < comm_size (comm v)"
    and len: "int (length (owner_range vm)) = comm_size (comm v) + 1"
    and spans: "\<forall>k<nat (comm_size (comm v)).
                  0 \<le> bsize v * (owner_range vm ! Suc k - owner_range vm ! k)"
    and size: "size_loc v = bsize v * (owner_range vm ! Suc (nat (comm_rank (comm v))) -
                                        owner_range vm ! nat (comm_rank (comm v)))"
      "int (length (x_loc v)) = size_loc v"
    and fits: "\<forall>k<nat (comm_size (comm v)). int k \<noteq> comm_rank (comm v) \<longrightarrow>
                 in_int (bsize v * owner_range vm ! k) \<and> in_int (bsize v * owner_range vm ! Suc k)"
  shows "setRand rand rmax lower upper (v, g) =
     Some (v\<lparr> x_loc := map (rand_scalar lower upper rmax)
                   (rand_draws rand (length (x_loc v))
                      (rand_adv rand (nat (bsize v * (owner_range vm ! nat (comm_rank (comm v)) -
                          owner_range vm ! 0))) g)) \<rparr>,
           rand_adv rand (nat (bsize v * (owner_range vm ! nat (comm_size (comm v)) -
                          owner_range vm ! 0))) g)"
proof -
  define rk where "rk = comm_rank (comm v)"
  define P where "P = comm_size (comm v)"
  define B where "B = bsize v"
  define orange where "orange = owner_range vm"
  define off where "off = (\<lambda>k::int. nat (B * (orange ! nat k - orange ! 0)))"
  define final where "final = map (rand_scalar lower upper rmax)
                   (rand_draws rand (length (x_loc v)) (rand_adv rand (off rk) g))"
  let ?body = "\<lambda>k (xs, g).
                        if k \<noteq> rk then
                          do {
                            hi \<leftarrow> rd orange (k + 1);
                            end \<leftarrow> mul_int B hi;
                            lo \<leftarrow> rd orange k;
                            i0 \<leftarrow> mul_int B lo;
                            g' \<leftarrow> skip_rand rand i0 end g;
                            Some (xs, g')
                          }
                        else fill_rand rand rmax lower upper (size_loc v) (xs, g)"
  let ?I = "\<lambda>k (xs, g'). g' = rand_adv rand (off k) g \<and> xs = (if k \<le> rk then x_loc v else final)"
  have step_off: "off (k + 1) = off k + nat (B * orange ! nat (k + 1) - B * orange ! nat k)"
    if k: "0 \<le> k" "k < P" for k
  proof -
    have a: "0 \<le> B * (orange ! nat k - orange ! 0)"
      using prefix_nonneg [of "nat P" B orange "nat k"] spans k
      by (simp add: B_def orange_def P_def)
    have b: "0 \<le> B * (orange ! Suc (nat k) - orange ! nat k)"
      using spans k by (simp add: B_def orange_def P_def)
    have c: "nat (k + 1) = Suc (nat k)" using k by simp
    have e: "B * (orange ! Suc (nat k) - orange ! 0) =
          B * (orange ! nat k - orange ! 0) + B * (orange ! Suc (nat k) - orange ! nat k)"
      by (simp add: algebra_simps)
    have "off (k + 1) = nat (B * (orange ! nat k - orange ! 0) +
                             B * (orange ! Suc (nat k) - orange ! nat k))"
      unfolding off_def c e ..
    also have "\<dots> = nat (B * (orange ! nat k - orange ! 0)) +
                     nat (B * (orange ! Suc (nat k) - orange ! nat k))"
      using a b by (rule nat_add_distrib)
    also have "nat (B * (orange ! Suc (nat k) - orange ! nat k)) =
               nat (B * orange ! nat (k + 1) - B * orange ! nat k)"
      unfolding c by (simp add: right_diff_distrib)
    finally show ?thesis by (simp add: off_def)
  qed
  have "\<exists>s'. for_loop 0 P ?body (x_loc v, g) = Some s' \<and> ?I P s'"
  proof (rule for_loop_rule [where I = ?I])
    show "?I 0 (x_loc v, g)" using r by (simp add: off_def rk_def)
    show "0 \<le> P" using r by (simp add: P_def)
  next
    fix k :: int and t :: "real list \<times> 'g"
    assume k: "0 \<le> k" "k < P" and I: "?I k t"
    obtain xs g' where t: "t = (xs, g')" by (cases t)
    from I t have g': "g' = rand_adv rand (off k) g"
      and xs: "xs = (if k \<le> rk then x_loc v else final)" by simp_all
    show "\<exists>t'. ?body k t = Some t' \<and> ?I (k + 1) t'"
    proof (cases "k = rk")
      case False
      have rds: "rd orange (k + 1) = Some (orange ! nat (k + 1))" "rd orange k = Some (orange ! nat k)"
        using k len by (simp_all add: rd_def orange_def P_def)
      have "nat k < nat P" "int (nat k) \<noteq> rk" "nat (k + 1) = Suc (nat k)"
        using k False by simp_all
      with fits have "in_int (B * orange ! nat k)" "in_int (B * orange ! nat (k + 1))"
        by (simp_all add: B_def orange_def P_def rk_def)
      then have muls: "mul_int B (orange ! nat (k + 1)) = Some (B * orange ! nat (k + 1))"
        "mul_int B (orange ! nat k) = Some (B * orange ! nat k)"
        by (simp_all add: mul_int_def)
      have "?body k t = Some (xs, rand_adv rand (nat (B * orange ! nat (k + 1) - B * orange ! nat k)) g')"
        using False t rds muls by (simp add: skip_rand_eq)
      moreover have "rand_adv rand (nat (B * orange ! nat (k + 1) - B * orange ! nat k)) g'
                     = rand_adv rand (off (k + 1)) g"
        using step_off [OF k] g' by (simp add: rand_adv_add)
      moreover have "(k + 1 \<le> rk) = (k \<le> rk)" using False by auto
      ultimately show ?thesis using xs by simp
    next
      case True
      then have xs': "xs = x_loc v" using xs by simp
      have n: "size_loc v = int (length xs)" using size xs' by simp
      have "?body k t = Some (map (rand_scalar lower upper rmax) (rand_draws rand (length xs) g'),
                 rand_adv rand (length xs) g')"
        using True t fill_rand_eq [OF n] by simp
      moreover have "map (rand_scalar lower upper rmax) (rand_draws rand (length xs) g') = final"
        using True g' xs' by (simp add: final_def)
      moreover have "rand_adv rand (length xs) g' = rand_adv rand (off (k + 1)) g"
      proof -
        have "int (length xs) = B * (orange ! Suc (nat k) - orange ! nat k)"
          using size xs' True by (simp add: B_def orange_def rk_def)
        moreover have c: "nat (k + 1) = Suc (nat k)" using k by simp
        ultimately have "length xs = nat (B * orange ! nat (k + 1) - B * orange ! nat k)"
          unfolding c by (simp add: algebra_simps)
        then show ?thesis using step_off [OF k] g' by (simp add: rand_adv_add)
      qed
      moreover have "\<not> k + 1 \<le> rk" using True by simp
      ultimately show ?thesis by simp
    qed
  qed
  then obtain xs' g' where res: "for_loop 0 P ?body (x_loc v, g) = Some (xs', g')"
    "g' = rand_adv rand (off P) g" "xs' = (if P \<le> rk then x_loc v else final)"
    by auto
  have "xs' = final" using res(3) r by (simp add: rk_def P_def)
  with res(1,2) vm show ?thesis
    unfolding setRand_def Let_def rk_def P_def B_def orange_def final_def off_def
    by simp
qed

lemma those_map_index:
  assumes "\<forall>q<length xs. f (xs ! q) = Some (h q)"
  shows "those (map f xs) = Some (map h [0..<length xs])"
proof -
  have "map f xs = map (\<lambda>q. Some (h q)) [0..<length xs]"
    using assms by (intro nth_equalityI) simp_all
  moreover have "those (map (\<lambda>q. Some (h q)) ys) = Some (map h ys)" for ys
    by (induction ys) simp_all
  ultimately show ?thesis by simp
qed

lemma concat_rand_draws:
  fixes cnt off :: "nat \<Rightarrow> nat"
  assumes "off 0 = 0" and "\<forall>q<P. off (Suc q) = off q + cnt q"
  shows "k \<le> P \<Longrightarrow>
         concat (map (\<lambda>q. map sc (rand_draws rand (cnt q) (rand_adv rand (off q) g))) [0..<k])
         = map sc (rand_draws rand (off k) g)"
proof (induction k)
  case 0
  then show ?case using assms(1) by (simp add: rand_draws_def)
next
  case (Suc k)
  then have "off (Suc k) = off k + cnt k" using assms(2) by simp
  then show ?case using Suc by (simp add: rand_draws_add)
qed

lemma ex_rand_draws:
  "rand_draws ex_rand 8 1 = [8, 11, 10, 5, 12, 15, 14, 9]"
  "rand_draws ex_rand 4 1 = [8, 11, 10, 5]"
  "rand_draws ex_rand 4 5 = [12, 15, 14, 9]"
  "rand_adv ex_rand 8 1 = 9" "rand_adv ex_rand 4 1 = 5"
  "rand_draws ex_rand (Suc (Suc (Suc (Suc (Suc (Suc (Suc (Suc 0)))))))) 1 =
     [8, 11, 10, 5, 12, 15, 14, 9]"
  "rand_draws ex_rand (Suc (Suc (Suc (Suc 0)))) 1 = [8, 11, 10, 5]"
  "rand_draws ex_rand (Suc (Suc (Suc (Suc 0)))) 5 = [12, 15, 14, 9]"
  by code_simp+

lemma ex_single_setRand:
  "setRand ex_rand 15 0 15 (ex_single, 1) =
     Some (ex_single\<lparr> x_loc := [8, 11, 10, 5, 12, 15, 14, 9] \<rparr>, 9)"
proof -
  have "var_map ex_single = Some \<lparr> map_comm = \<lparr> comm_rank = 0, comm_size = 1 \<rparr>, map_dim = 4,
                                   owner_range = [0, 4] \<rparr>"
    by (simp add: ex_single_def)
  from setRand_rank [OF this, of ex_rand 15 0 15 1]
  show ?thesis
    by (simp add: ex_single_def ex_rand_draws rand_scalar_def)
qed

lemma ex_vec_setRand:
  "setRand ex_rand 15 0 15 (ex_vec, 1) = Some (ex_vec\<lparr> x_loc := [8, 11, 10, 5] \<rparr>, 9)"
proof -
  have "var_map ex_vec = Some ex_map" by (simp add: ex_vec_def)
  from setRand_rank [OF this, of ex_rand 15 0 15 1]
  show ?thesis
    by (simp add: ex_vec_def ex_map_def less_Suc_eq numeral_2_eq_2 ex_rand_draws rand_scalar_def
        in_int_def INT_MIN_def INT_MAX_def)
qed

lemma ex_vec1_setRand:
  "setRand ex_rand 15 0 15 (ex_vec1, 1) = Some (ex_vec1\<lparr> x_loc := [12, 15, 14, 9] \<rparr>, 9)"
proof -
  have "var_map ex_vec1 = Some (ex_map\<lparr> map_comm := \<lparr> comm_rank = 1, comm_size = 2 \<rparr> \<rparr>)"
    by (simp add: ex_vec1_def)
  from setRand_rank [OF this, of ex_rand 15 0 15 1]
  show ?thesis
    by (simp add: ex_vec1_def ex_vec_def ex_map_def less_Suc_eq numeral_2_eq_2 ex_rand_draws
        rand_scalar_def in_int_def INT_MIN_def INT_MAX_def)
qed


text \<open>
  Where a bound of a skip loop does not fit an \<^verbatim>\<open>int\<close>, the call is undefined: on the second
  rank of the vector above, \<^verbatim>\<open>end = bsize*owner_range[1]\<close> is \<open>2\<cdot>1073741825\<close>.
\<close>

lemma setRand_overflow: "setRand rand rmax lower upper (ex_far, g) = None"
  by (simp add: setRand_def ex_far_def ex_single_def for_loop_step rd_def mul_int_def in_int_def
      INT_MIN_def INT_MAX_def)

text \<open>
  C7: let \<open>vs\<close> be the pieces of one vector on the ranks \<open>0, \<dots>, P - 1\<close> of a
  communicator, with the owner range \<open>orange\<close> and the block size \<open>B\<close>, and let \<open>u\<close>
  be the same vector held by a single rank. Started from the same state \<open>g\<close> of the
  generator, \<open>setRand\<close> returns on \<open>u\<close> and on every piece; the owned arrays of the
  pieces, concatenated in rank order, are the owned array of \<open>u\<close>; every rank leaves
  the generator in the state in which the single rank leaves it; and the array of rank
  \<open>q\<close> holds the \<open>B\<cdot>(orange[q+1] - orange[q])\<close> values drawn after the
  \<open>B\<cdot>(orange[q] - orange[0])\<close> draws that belong to the ranks before it. The bounds
  \<open>B\<cdot>orange[k]\<close> and \<open>B\<cdot>orange[k+1]\<close> that a rank \<open>q\<close> computes for every other rank \<open>k\<close>
  are assumed to fit an \<^verbatim>\<open>int\<close>; where one does not, the call is undefined.
\<close>

theorem setRand_deterministic:
  fixes vs :: "'c TACSBVec list" and u :: "'c TACSBVec" and orange :: "int list" and B :: int
    and rand :: "'g \<Rightarrow> int \<times> 'g"
  assumes len: "length orange = Suc (length vs)"
    and pieces: "\<forall>q<length vs. \<exists>vm. var_map (vs ! q) = Some vm \<and> owner_range vm = orange \<and>
        comm_rank (comm (vs ! q)) = int q \<and> comm_size (comm (vs ! q)) = int (length vs) \<and>
        bsize (vs ! q) = B \<and> size_loc (vs ! q) = B * (orange ! Suc q - orange ! q) \<and>
        int (length (x_loc (vs ! q))) = size_loc (vs ! q)"
    and single: "\<exists>um. var_map u = Some um \<and> owner_range um = [orange ! 0, orange ! length vs] \<and>
        comm_rank (comm u) = 0 \<and> comm_size (comm u) = 1 \<and> bsize u = B \<and>
        size_loc u = B * (orange ! length vs - orange ! 0) \<and>
        int (length (x_loc u)) = size_loc u"
    and fits: "\<forall>q<length vs. \<forall>k<length vs. k \<noteq> q \<longrightarrow>
        in_int (B * orange ! k) \<and> in_int (B * orange ! Suc k)"
  shows "\<exists>u' g' rs.
           setRand rand rmax lower upper (u, g) = Some (u', g') \<and>
           those (map (\<lambda>v. setRand rand rmax lower upper (v, g)) vs) = Some rs \<and>
           concat (map (\<lambda>r. x_loc (fst r)) rs) = x_loc u' \<and>
           list_all (\<lambda>r. snd r = g') rs \<and>
           map (\<lambda>r. x_loc (fst r)) rs =
             map (\<lambda>q. map (rand_scalar lower upper rmax)
                    (rand_draws rand (nat (B * (orange ! Suc q - orange ! q)))
                       (rand_adv rand (nat (B * (orange ! q - orange ! 0))) g)))
                 [0..<length vs]"
proof -
  define P where "P = length vs"
  define sc where "sc = rand_scalar lower upper rmax"
  define cnt where "cnt = (\<lambda>q. nat (B * (orange ! Suc q - orange ! q)))"
  define off where "off = (\<lambda>q. nat (B * (orange ! q - orange ! 0)))"
  have spans: "\<forall>k<P. 0 \<le> B * (orange ! Suc k - orange ! k)"
  proof (intro allI impI)
    fix k assume "k < P"
    with pieces have "int (length (x_loc (vs ! k))) = B * (orange ! Suc k - orange ! k)"
      unfolding P_def by fastforce
    then show "0 \<le> B * (orange ! Suc k - orange ! k)" by linarith
  qed
  have off_Suc: "\<forall>q<P. off (Suc q) = off q + cnt q"
  proof (intro allI impI)
    fix q assume q: "q < P"
    have a: "0 \<le> B * (orange ! q - orange ! 0)"
      using prefix_nonneg [OF spans, of q] q by simp
    have b: "0 \<le> B * (orange ! Suc q - orange ! q)" using spans q by simp
    have "B * (orange ! Suc q - orange ! 0) =
          B * (orange ! q - orange ! 0) + B * (orange ! Suc q - orange ! q)"
      by (simp add: algebra_simps)
    then show "off (Suc q) = off q + cnt q"
      unfolding off_def cnt_def using nat_add_distrib [OF a b] by simp
  qed
  \<comment> \<open>the run on one rank\<close>
  from single obtain um where um: "var_map u = Some um"
    "owner_range um = [orange ! 0, orange ! length vs]"
    "comm_rank (comm u) = 0" "comm_size (comm u) = 1" "bsize u = B"
    "size_loc u = B * (orange ! length vs - orange ! 0)"
    "int (length (x_loc u)) = size_loc u" by blast
  have ulen: "length (x_loc u) = off P" using um(6,7) by (simp add: off_def P_def)
  have urun: "setRand rand rmax lower upper (u, g) =
      Some (u\<lparr> x_loc := map sc (rand_draws rand (off P) g) \<rparr>, rand_adv rand (off P) g)"
    using setRand_rank [OF um(1), of rand rmax lower upper g] um(2-) ulen
    by (simp add: sc_def off_def P_def)
  \<comment> \<open>the run on the rank \<open>q\<close> of \<open>P\<close>\<close>
  define res where "res = (\<lambda>q. ((vs ! q)\<lparr> x_loc := map sc (rand_draws rand (cnt q)
        (rand_adv rand (off q) g)) \<rparr>, rand_adv rand (off P) g))"
  have qrun: "\<forall>q<length vs. setRand rand rmax lower upper (vs ! q, g) = Some (res q)"
  proof (intro allI impI)
    fix q assume q: "q < length vs"
    with pieces obtain vm where vm: "var_map (vs ! q) = Some vm" "owner_range vm = orange"
      "comm_rank (comm (vs ! q)) = int q" "comm_size (comm (vs ! q)) = int (length vs)"
      "bsize (vs ! q) = B" "size_loc (vs ! q) = B * (orange ! Suc q - orange ! q)"
      "int (length (x_loc (vs ! q))) = size_loc (vs ! q)" by blast
    have l: "length (x_loc (vs ! q)) = cnt q" using vm(6,7) by (simp add: cnt_def)
    have f: "\<forall>k<length vs. int k \<noteq> int q \<longrightarrow>
                in_int (B * orange ! k) \<and> in_int (B * orange ! Suc k)"
      using fits q by simp
    show "setRand rand rmax lower upper (vs ! q, g) = Some (res q)"
      using setRand_rank [OF vm(1), of rand rmax lower upper g] vm(2-) q len spans l f
      by (simp add: res_def sc_def off_def P_def)
  qed
  have rs: "those (map (\<lambda>v. setRand rand rmax lower upper (v, g)) vs) = Some (map res [0..<P])"
    unfolding P_def by (rule those_map_index) (use qrun in blast)
  have xs: "map (\<lambda>r. x_loc (fst r)) (map res [0..<P]) =
      map (\<lambda>q. map sc (rand_draws rand (cnt q) (rand_adv rand (off q) g))) [0..<P]"
    by (simp add: res_def)
  have "concat (map (\<lambda>r. x_loc (fst r)) (map res [0..<P])) = map sc (rand_draws rand (off P) g)"
    unfolding xs by (rule concat_rand_draws [OF _ off_Suc]) (simp_all add: off_def)
  moreover have "list_all (\<lambda>r. snd r = rand_adv rand (off P) g) (map res [0..<P])"
    by (simp add: list_all_iff res_def)
  ultimately show ?thesis
    using urun rs xs unfolding sc_def cnt_def off_def P_def by simp
qed

theorem setRand_deterministic_witness:
  "setRand ex_rand 15 0 15 (ex_single, 1) =
     Some (ex_single\<lparr> x_loc := [8, 11, 10, 5, 12, 15, 14, 9] \<rparr>, 9) \<and>
   those (map (\<lambda>v. setRand ex_rand 15 0 15 (v, 1)) [ex_vec, ex_vec1]) =
     Some [(ex_vec\<lparr> x_loc := [8, 11, 10, 5] \<rparr>, 9), (ex_vec1\<lparr> x_loc := [12, 15, 14, 9] \<rparr>, 9)] \<and>
   concat (map (\<lambda>r. x_loc (fst r))
      [(ex_vec\<lparr> x_loc := [8, 11, 10, 5] \<rparr>, 9 :: int), (ex_vec1\<lparr> x_loc := [12, 15, 14, 9] \<rparr>, 9)])
     = x_loc (ex_single\<lparr> x_loc := [8, 11, 10, 5, 12, 15, 14, 9] \<rparr>)"
proof -
  have len: "length [0, 2, 4 :: int] = Suc (length [ex_vec, ex_vec1])" by simp
  have pieces: "\<forall>q<length [ex_vec, ex_vec1]. \<exists>vm. var_map ([ex_vec, ex_vec1] ! q) = Some vm \<and>
        owner_range vm = [0, 2, 4] \<and>
        comm_rank (comm ([ex_vec, ex_vec1] ! q)) = int q \<and>
        comm_size (comm ([ex_vec, ex_vec1] ! q)) = int (length [ex_vec, ex_vec1]) \<and>
        bsize ([ex_vec, ex_vec1] ! q) = 2 \<and>
        size_loc ([ex_vec, ex_vec1] ! q) = 2 * ([0, 2, 4] ! Suc q - [0, 2, 4] ! q) \<and>
        int (length (x_loc ([ex_vec, ex_vec1] ! q))) = size_loc ([ex_vec, ex_vec1] ! q)"
  proof (intro allI impI)
    fix q assume "q < length [ex_vec, ex_vec1]"
    then have "q = 0 \<or> q = 1" by auto
    then show "\<exists>vm. var_map ([ex_vec, ex_vec1] ! q) = Some vm \<and>
        owner_range vm = [0, 2, 4] \<and>
        comm_rank (comm ([ex_vec, ex_vec1] ! q)) = int q \<and>
        comm_size (comm ([ex_vec, ex_vec1] ! q)) = int (length [ex_vec, ex_vec1]) \<and>
        bsize ([ex_vec, ex_vec1] ! q) = 2 \<and>
        size_loc ([ex_vec, ex_vec1] ! q) = 2 * ([0, 2, 4] ! Suc q - [0, 2, 4] ! q) \<and>
        int (length (x_loc ([ex_vec, ex_vec1] ! q))) = size_loc ([ex_vec, ex_vec1] ! q)"
      by (auto simp: ex_vec_def ex_vec1_def ex_map_def)
  qed
  have single: "\<exists>um. var_map ex_single = Some um \<and>
        owner_range um = [[0, 2, 4] ! 0, [0, 2, 4] ! length [ex_vec, ex_vec1]] \<and>
        comm_rank (comm ex_single) = 0 \<and> comm_size (comm ex_single)  = 1 \<and> bsize ex_single = 2 \<and>
        size_loc ex_single = 2 * ([0, 2, 4] ! length [ex_vec, ex_vec1] - [0, 2, 4] ! 0) \<and>
        int (length (x_loc ex_single)) = size_loc ex_single"
    by (simp add: ex_single_def)
  have fits: "\<forall>q<length [ex_vec, ex_vec1]. \<forall>k<length [ex_vec, ex_vec1]. k \<noteq> q \<longrightarrow>
        in_int (2 * [0, 2, 4] ! k) \<and> in_int (2 * [0, 2, 4] ! Suc k)"
    by (simp add: less_Suc_eq numeral_2_eq_2 in_int_def INT_MIN_def INT_MAX_def)
  from setRand_deterministic [OF len pieces single fits, of ex_rand 15 0 15 1]
  obtain u' g' rs where
    "setRand ex_rand 15 0 15 (ex_single, 1) = Some (u', g')"
    "those (map (\<lambda>v. setRand ex_rand 15 0 15 (v, 1)) [ex_vec, ex_vec1]) = Some rs"
    "concat (map (\<lambda>r. x_loc (fst r)) rs) = x_loc u'"
    by blast
  then show ?thesis
    by (simp add: ex_single_setRand ex_vec_setRand ex_vec1_setRand)
qed

subsection \<open>Loops over a block\<close>

lemma block_disjoint:
  fixes B g g' k :: int
  assumes "0 \<le> B" "g \<noteq> g'" "0 \<le> k" "k < B"
  shows "\<not> (B * g \<le> B * g' + k \<and> B * g' + k < B * g + B)"
proof (cases "g' < g")
  case True
  then have "B * (g' + 1) \<le> B * g" using assms(1) by (intro mult_left_mono) simp_all
  then show ?thesis using assms(4) by (simp add: algebra_simps)
next
  case False
  with assms(2) have "B * (g + 1) \<le> B * g'" using assms(1) by (intro mult_left_mono) simp_all
  then show ?thesis using assms(3) by (simp add: algebra_simps)
qed

text \<open>A loop that rewrites the block of \<open>b\<close> entries from position \<open>ti\<close>, entry by entry.\<close>

lemma block_loop:
  fixes t0 :: "real list"
  assumes body: "\<And>k t. 0 \<le> k \<Longrightarrow> k < b \<Longrightarrow> length t = length t0 \<Longrightarrow>
                   body k t = Some (t[nat (ti + k) := F k (t ! nat (ti + k))])"
    and ti: "0 \<le> ti" "ti + b \<le> int (length t0)"
  shows "\<exists>t'. for_loop 0 b body t0 = Some t' \<and> length t' = length t0 \<and>
           (\<forall>k. 0 \<le> k \<and> k < b \<longrightarrow> t' ! nat (ti + k) = F k (t0 ! nat (ti + k))) \<and>
           (\<forall>p. 0 \<le> p \<and> \<not> (ti \<le> p \<and> p < ti + b) \<longrightarrow> t' ! nat p = t0 ! nat p)"
proof -
  let ?I = "\<lambda>j t. length t = length t0 \<and>
           (\<forall>k. 0 \<le> k \<and> k < j \<and> k < b \<longrightarrow> t ! nat (ti + k) = F k (t0 ! nat (ti + k))) \<and>
           (\<forall>p. 0 \<le> p \<and> \<not> (ti \<le> p \<and> p < ti + j) \<longrightarrow> t ! nat p = t0 ! nat p)"
  have "\<exists>t'. for_loop 0 b body t0 = Some t' \<and> ?I (max 0 b) t'"
  proof (rule for_loop_rule_any [where I = ?I])
    show "?I 0 t0" by simp
  next
    fix j t assume j: "0 \<le> j" "j < b" and I: "?I j t"
    let ?t' = "t[nat (ti + j) := F j (t ! nat (ti + j))]"
    have run: "body j t = Some ?t'" using body j I by simp
    have inb: "nat (ti + j) < length t" using ti j I by simp
    have old: "t ! nat (ti + j) = t0 ! nat (ti + j)" using I ti j by simp
    have "?I (j + 1) ?t'"
    proof (intro conjI allI impI)
      show "length ?t' = length t0" using I by simp
    next
      fix k assume k: "0 \<le> k \<and> k < j + 1 \<and> k < b"
      show "?t' ! nat (ti + k) = F k (t0 ! nat (ti + k))"
      proof (cases "k = j")
        case True
        then show ?thesis using inb old by simp
      next
        case False
        then have "nat (ti + j) \<noteq> nat (ti + k)" using ti k j by arith
        then show ?thesis using I k False by simp
      qed
    next
      fix p assume p: "0 \<le> p \<and> \<not> (ti \<le> p \<and> p < ti + (j + 1))"
      then have "nat (ti + j) \<noteq> nat p" using ti j by arith
      moreover have "\<not> (ti \<le> p \<and> p < ti + j)" using p by auto
      ultimately show "?t' ! nat p = t0 ! nat p" using I p by simp
    qed
    with run show "\<exists>t'. body j t = Some t' \<and> ?I (j + 1) t'" by blast
  qed
  then obtain t' where t': "for_loop 0 b body t0 = Some t'" "?I (max 0 b) t'" by blast
  have "\<And>p. \<not> (ti \<le> p \<and> p < ti + b) \<Longrightarrow> \<not> (ti \<le> p \<and> p < ti + max 0 b)"
    by (auto simp: max_def)
  with t' show ?thesis by (auto simp: max_def)
qed

lemma blk_axpy_ok:
  assumes "0 \<le> ti" "ti + b \<le> int (length t)" "0 \<le> si" "si + b \<le> int (length s)"
    and "0 \<le> jp" "jp < int (length weights)"
  shows "\<exists>t'. blk_axpy weights jp s si t ti b = Some t' \<and> length t' = length t \<and>
           (\<forall>k. 0 \<le> k \<and> k < b \<longrightarrow>
              t' ! nat (ti + k) = t ! nat (ti + k) + weights ! nat jp * s ! nat (si + k)) \<and>
           (\<forall>p. 0 \<le> p \<and> \<not> (ti \<le> p \<and> p < ti + b) \<longrightarrow> t' ! nat p = t ! nat p)"
  unfolding blk_axpy_def
proof (rule block_loop [where F = "\<lambda>k old. old + weights ! nat jp * s ! nat (si + k)"])
  fix k and u :: "real list" assume "0 \<le> k" "k < b" "length u = length t"
  then show "do { wgt \<leftarrow> rd weights jp; a \<leftarrow> rd s (si + k); old \<leftarrow> rd u (ti + k);
                  wr u (ti + k) (old + wgt * a) } =
             Some (u[nat (ti + k) := u ! nat (ti + k) + weights ! nat jp * s ! nat (si + k)])"
    using assms by (simp add: rd_def wr_def)
qed (use assms in simp_all)

lemma zero_block_ok:
  fixes t :: "real list"
  assumes "0 \<le> ti" "ti + b \<le> int (length t)"
  shows "\<exists>t'. for_loop 0 b (\<lambda>k z. wr z (ti + k) 0) t = Some t' \<and> length t' = length t \<and>
           (\<forall>k. 0 \<le> k \<and> k < b \<longrightarrow> t' ! nat (ti + k) = 0) \<and>
           (\<forall>p. 0 \<le> p \<and> \<not> (ti \<le> p \<and> p < ti + b) \<longrightarrow> t' ! nat p = t ! nat p)"
proof (rule block_loop [where F = "\<lambda>k old. 0"])
  fix k and u :: "real list" assume "0 \<le> k" "k < b" "length u = length t"
  then show "wr u (ti + k) 0 = Some (u[nat (ti + k) := 0])"
    using assms by (simp add: wr_def)
qed (use assms in simp_all)

text \<open>A loop that moves two pointers along with its counter.\<close>

lemma for_loop_ptrs:
  "for_loop i b (\<lambda>k (u, p, q). do { u' \<leftarrow> step p q u; Some (u', p + 1, q + 1) })
      (u, p0 + i, q0 + i)
   = map_option (\<lambda>u'. (u', p0 + max i b, q0 + max i b))
       (for_loop i b (\<lambda>k u. step (p0 + k) (q0 + k) u) u)"
proof (induction "nat (b - i)" arbitrary: i u)
  case 0
  then have "b \<le> i" by simp
  then show ?case by (simp add: for_loop_done max_def)
next
  case (Suc m)
  then have lt: "i < b" by simp
  show ?case
  proof (cases "step (p0 + i) (q0 + i) u")
    case None
    then show ?thesis using lt by (simp add: for_loop_step)
  next
    case (Some u')
    have "m = nat (b - (i + 1))" using Suc.hyps(2) by simp
    from Suc.hyps(1) [OF this, of u']
    show ?thesis using lt Some by (simp add: for_loop_step add.assoc max_def)
  qed
qed

lemma blk_upd_ok:
  assumes "0 \<le> b" "0 \<le> yi" "yi + b \<le> int (length y)" "0 \<le> vp" "vp + b \<le> int (length vals)"
  shows "\<exists>y'. blk_upd f y yi vals vp b = Some (y', vp + b) \<and> length y' = length y \<and>
           (\<forall>k. 0 \<le> k \<and> k < b \<longrightarrow>
              y' ! nat (yi + k) = f (y ! nat (yi + k)) (vals ! nat (vp + k))) \<and>
           (\<forall>p. 0 \<le> p \<and> \<not> (yi \<le> p \<and> p < yi + b) \<longrightarrow> y' ! nat p = y ! nat p)"
proof -
  let ?step = "\<lambda>p q u. do { s \<leftarrow> rd vals q; old \<leftarrow> rd u p; wr u p (f old s) }"
  have body: "(\<lambda>(k::int) (y, yi, vp).
              do { s \<leftarrow> rd vals vp; old \<leftarrow> rd y yi; y' \<leftarrow> wr y yi (f old s);
                   Some (y', yi + 1, vp + 1) })
        = (\<lambda>k (u, p, q). do { u' \<leftarrow> ?step p q u; Some (u', p + 1, q + 1) })"
    by (simp add: fun_eq_iff)
  have "\<exists>t'. for_loop 0 b (\<lambda>k u. ?step (yi + k) (vp + k) u) y = Some t' \<and> length t' = length y \<and>
           (\<forall>k. 0 \<le> k \<and> k < b \<longrightarrow> t' ! nat (yi + k) = f (y ! nat (yi + k)) (vals ! nat (vp + k))) \<and>
           (\<forall>p. 0 \<le> p \<and> \<not> (yi \<le> p \<and> p < yi + b) \<longrightarrow> t' ! nat p = y ! nat p)"
  proof (rule block_loop [where F = "\<lambda>k old. f old (vals ! nat (vp + k))"])
    fix k and u :: "real list" assume "0 \<le> k" "k < b" "length u = length y"
    then show "?step (yi + k) (vp + k) u =
               Some (u[nat (yi + k) := f (u ! nat (yi + k)) (vals ! nat (vp + k))])"
      using assms by (simp add: rd_def wr_def)
  qed (use assms in simp_all)
  then obtain t' where t': "for_loop 0 b (\<lambda>k u. ?step (yi + k) (vp + k) u) y = Some t'"
    "length t' = length y"
    "\<forall>k. 0 \<le> k \<and> k < b \<longrightarrow> t' ! nat (yi + k) = f (y ! nat (yi + k)) (vals ! nat (vp + k))"
    "\<forall>p. 0 \<le> p \<and> \<not> (yi \<le> p \<and> p < yi + b) \<longrightarrow> t' ! nat p = y ! nat p"
    by blast
  have "blk_upd f y yi vals vp b = Some (t', vp + b)"
    unfolding blk_upd_def body
    using for_loop_ptrs [of 0 b ?step y yi vp] t'(1) assms(1) by (simp add: max_def)
  with t'(2-) show ?thesis by blast
qed

lemma blk_get_ok:
  assumes "0 \<le> b" "0 \<le> yi" "yi + b \<le> int (length y)" "0 \<le> vp" "vp + b \<le> int (length vals)"
  shows "\<exists>vals'. blk_get y yi vals vp b = Some (vals', vp + b) \<and> length vals' = length vals \<and>
           (\<forall>k. 0 \<le> k \<and> k < b \<longrightarrow> vals' ! nat (vp + k) = y ! nat (yi + k)) \<and>
           (\<forall>p. 0 \<le> p \<and> \<not> (vp \<le> p \<and> p < vp + b) \<longrightarrow> vals' ! nat p = vals ! nat p)"
proof -
  let ?step = "\<lambda>p q u. do { s \<leftarrow> rd y p; wr u q s }"
  have body: "(\<lambda>(k::int) (vals, yi, vp).
              do { s \<leftarrow> rd y yi; vals' \<leftarrow> wr vals vp s; Some (vals', yi + 1, vp + 1) })
        = (\<lambda>k (u, p, q). do { u' \<leftarrow> ?step p q u; Some (u', p + 1, q + 1) })"
    by (simp add: fun_eq_iff)
  have "\<exists>t'. for_loop 0 b (\<lambda>k u. ?step (yi + k) (vp + k) u) vals = Some t' \<and>
           length t' = length vals \<and>
           (\<forall>k. 0 \<le> k \<and> k < b \<longrightarrow> t' ! nat (vp + k) = y ! nat (yi + k)) \<and>
           (\<forall>p. 0 \<le> p \<and> \<not> (vp \<le> p \<and> p < vp + b) \<longrightarrow> t' ! nat p = vals ! nat p)"
  proof (rule block_loop [where F = "\<lambda>k old. y ! nat (yi + k)"])
    fix k and u :: "real list" assume "0 \<le> k" "k < b" "length u = length vals"
    then show "?step (yi + k) (vp + k) u = Some (u[nat (vp + k) := y ! nat (yi + k)])"
      using assms by (simp add: rd_def wr_def)
  qed (use assms in simp_all)
  then obtain t' where t': "for_loop 0 b (\<lambda>k u. ?step (yi + k) (vp + k) u) vals = Some t'"
    "length t' = length vals"
    "\<forall>k. 0 \<le> k \<and> k < b \<longrightarrow> t' ! nat (vp + k) = y ! nat (yi + k)"
    "\<forall>p. 0 \<le> p \<and> \<not> (vp \<le> p \<and> p < vp + b) \<longrightarrow> t' ! nat p = vals ! nat p"
    by blast
  have "blk_get y yi vals vp b = Some (t', vp + b)"
    unfolding blk_get_def body
    using for_loop_ptrs [of 0 b ?step vals yi vp] t'(1) assms(1) by (simp add: max_def)
  with t'(2-) show ?thesis by blast
qed

subsection \<open>Inserting blocks and reading them back\<close>

lemma blk_pos:
  fixes B j n :: int
  assumes "0 \<le> B" "0 \<le> j" "j < n"
  shows "0 \<le> j * B" "j * B + B \<le> n * B"
proof -
  show "0 \<le> j * B" using assms by simp
  have "(j + 1) * B \<le> n * B" using assms by (intro mult_right_mono) simp_all
  then show "j * B + B \<le> n * B" by (simp add: algebra_simps)
qed

lemma blk_before:
  fixes B i j k :: int
  assumes "0 \<le> B" "j < i" "k < B"
  shows "j * B + k < i * B"
proof -
  have "(j + 1) * B \<le> i * B" using assms by (intro mult_right_mono) simp_all
  then show ?thesis using assms(3) by (simp add: algebra_simps)
qed

lemma owned_block_bounds:
  fixes B g lo hi :: int
  assumes "0 \<le> B" "lo \<le> g" "g < hi"
  shows "0 \<le> B * (g - lo)" "B * (g - lo) + B \<le> B * (hi - lo)"
proof -
  show "0 \<le> B * (g - lo)" using assms by simp
  have "B * (g - lo + 1) \<le> B * (hi - lo)" using assms by (intro mult_left_mono) simp_all
  then show "B * (g - lo) + B \<le> B * (hi - lo)" by (simp add: algebra_simps)
qed

lemma dep_block_bounds:
  fixes B g D :: int
  assumes "0 \<le> B" "g < 0" "- g - 1 < D"
  shows "0 \<le> - B * (g + 1)" "- B * (g + 1) + B \<le> B * D"
proof -
  have "0 \<le> B * (- (g + 1))" using assms by (intro mult_nonneg_nonneg) simp_all
  then show "0 \<le> - B * (g + 1)" by (simp add: algebra_simps)
  have "B * (- g) \<le> B * D" using assms by (intro mult_left_mono) simp_all
  then show "- B * (g + 1) + B \<le> B * D" by (simp add: algebra_simps)
qed

lemma owned_blocks_disjoint:
  fixes B g g' lo k :: int
  assumes "0 \<le> B" "g \<noteq> g'" "0 \<le> k" "k < B"
  shows "\<not> (B * (g - lo) \<le> B * (g' - lo) + k \<and> B * (g' - lo) + k < B * (g - lo) + B)"
  using block_disjoint [of B "g - lo" "g' - lo" k] assms by simp

lemma dep_blocks_disjoint:
  fixes B g g' k :: int
  assumes "0 \<le> B" "g \<noteq> g'" "0 \<le> k" "k < B"
  shows "\<not> (- B * (g + 1) \<le> - B * (g' + 1) + k \<and> - B * (g' + 1) + k < - B * (g + 1) + B)"
  using block_disjoint [of B "- (g + 1)" "- (g' + 1)" k] assms by (simp add: algebra_simps)

lemma setValues_at_insert:
  fixes w :: "'c TACSBVec"
  assumes r: "0 \<le> rank" "rank + 1 < int (length orange)"
    and lohi: "lo = orange ! nat rank" "hi = orange ! nat (rank + 1)"
    and B: "0 \<le> bsize w"
    and i: "0 \<le> i" "i < int (length index)" and g: "g = index ! nat i"
    and cls: "(lo \<le> g \<and> g < hi) \<or> (g < 0 \<and> - g - 1 < D)"
    and x: "int (length (x_loc w)) = bsize w * (hi - lo)"
    and z: "case x_dep w of None \<Rightarrow> D = 0 | Some z \<Rightarrow> int (length z) = bsize w * D"
    and vp: "0 \<le> vp" "vp + bsize w \<le> int (length vals)"
  shows "\<exists>w'. setValues_at orange rank index vals INSERT_VALUES i (w, vp) = Some (w', vp + bsize w) \<and>
           var_map w' = var_map w \<and> comm w' = comm w \<and> bsize w' = bsize w \<and>
           length (x_loc w') = length (x_loc w) \<and>
           map_option length (x_dep w') = map_option length (x_dep w) \<and>
           (\<forall>k. 0 \<le> k \<and> k < bsize w \<longrightarrow> block_entry w' lo hi g k = vals ! nat (vp + k)) \<and>
           (\<forall>g' k. g' \<noteq> g \<and> 0 \<le> k \<and> k < bsize w \<and> ((lo \<le> g' \<and> g' < hi) \<or> g' < 0) \<longrightarrow>
              block_entry w' lo hi g' k = block_entry w lo hi g' k)"
proof -
  have rdg: "rd index i = Some g" using i g by (simp add: rd_def)
  have own: "owned orange rank g = Some (lo \<le> g \<and> g < hi)"
    using r lohi by (simp add: owned_Some)
  have rlo: "rd orange rank = Some lo" using r lohi by (simp add: rd_def)
  show ?thesis
  proof (cases "lo \<le> g \<and> g < hi")
    case True
    have b: "0 \<le> bsize w * (g - lo)" "bsize w * (g - lo) + bsize w \<le> int (length (x_loc w))"
      using owned_block_bounds [of "bsize w" lo g hi] B True x by simp_all
    from blk_upd_ok [OF B b vp, of "\<lambda>old s. s"]
    obtain y' where y': "blk_set (x_loc w) (bsize w * (g - lo)) vals vp (bsize w) = Some (y', vp + bsize w)"
      "length y' = length (x_loc w)"
      "\<forall>k. 0 \<le> k \<and> k < bsize w \<longrightarrow> y' ! nat (bsize w * (g - lo) + k) = vals ! nat (vp + k)"
      "\<forall>p. 0 \<le> p \<and> \<not> (bsize w * (g - lo) \<le> p \<and> p < bsize w * (g - lo) + bsize w) \<longrightarrow>
           y' ! nat p = x_loc w ! nat p"
      unfolding blk_set_def by blast
    let ?w' = "w\<lparr> x_loc := y' \<rparr>"
    have run: "setValues_at orange rank index vals INSERT_VALUES i (w, vp) = Some (?w', vp + bsize w)"
      using rdg own rlo True y'(1) by (simp add: setValues_at_def)
    have blk: "\<forall>k. 0 \<le> k \<and> k < bsize w \<longrightarrow> block_entry ?w' lo hi g k = vals ! nat (vp + k)"
      using True y'(3) by (auto simp: block_entry_def)
    have frame: "\<forall>g' k. g' \<noteq> g \<and> 0 \<le> k \<and> k < bsize w \<and> ((lo \<le> g' \<and> g' < hi) \<or> g' < 0) \<longrightarrow>
              block_entry ?w' lo hi g' k = block_entry w lo hi g' k"
    proof (intro allI impI)
      fix g' k assume h: "g' \<noteq> g \<and> 0 \<le> k \<and> k < bsize w \<and> ((lo \<le> g' \<and> g' < hi) \<or> g' < 0)"
      show "block_entry ?w' lo hi g' k = block_entry w lo hi g' k"
      proof (cases "lo \<le> g' \<and> g' < hi")
        case False
        then show ?thesis by (auto simp: block_entry_def)
      next
        case own': True
        have "\<not> (bsize w * (g - lo) \<le> bsize w * (g' - lo) + k \<and>
                 bsize w * (g' - lo) + k < bsize w * (g - lo) + bsize w)"
          using owned_blocks_disjoint [of "bsize w" g g' k lo] B h by simp
        moreover have "0 \<le> bsize w * (g' - lo) + k" using B own' h by simp
        ultimately have "y' ! nat (bsize w * (g' - lo) + k) = x_loc w ! nat (bsize w * (g' - lo) + k)"
          using y'(4) by blast
        then show ?thesis using own' by (auto simp: block_entry_def)
      qed
    qed
    show ?thesis using run y'(2) blk frame by (intro exI [of _ ?w']) simp
  next
    case False
    with cls have neg: "g < 0" "- g - 1 < D" by auto
    from neg B have "0 < D" by linarith
    with z obtain zz where zz: "x_dep w = Some zz" "int (length zz) = bsize w * D"
      by (cases "x_dep w") auto
    have b: "0 \<le> - bsize w * (g + 1)" "- bsize w * (g + 1) + bsize w \<le> int (length zz)"
      using dep_block_bounds [of "bsize w" g D] B neg zz by simp_all
    from blk_upd_ok [OF B b vp, of "\<lambda>old s. s"]
    obtain y' where y': "blk_set zz (- bsize w * (g + 1)) vals vp (bsize w) = Some (y', vp + bsize w)"
      "length y' = length zz"
      "\<forall>k. 0 \<le> k \<and> k < bsize w \<longrightarrow> y' ! nat (- bsize w * (g + 1) + k) = vals ! nat (vp + k)"
      "\<forall>p. 0 \<le> p \<and> \<not> (- bsize w * (g + 1) \<le> p \<and> p < - bsize w * (g + 1) + bsize w) \<longrightarrow>
           y' ! nat p = zz ! nat p"
      unfolding blk_set_def by blast
    let ?w' = "w\<lparr> x_dep := Some y' \<rparr>"
    have run: "setValues_at orange rank index vals INSERT_VALUES i (w, vp) = Some (?w', vp + bsize w)"
      using rdg own False neg zz y'(1) by (simp add: setValues_at_def)
    have blk: "\<forall>k. 0 \<le> k \<and> k < bsize w \<longrightarrow> block_entry ?w' lo hi g k = vals ! nat (vp + k)"
      using False y'(3) by (auto simp: block_entry_def)
    have frame: "\<forall>g' k. g' \<noteq> g \<and> 0 \<le> k \<and> k < bsize w \<and> ((lo \<le> g' \<and> g' < hi) \<or> g' < 0) \<longrightarrow>
              block_entry ?w' lo hi g' k = block_entry w lo hi g' k"
    proof (intro allI impI)
      fix g' k assume h: "g' \<noteq> g \<and> 0 \<le> k \<and> k < bsize w \<and> ((lo \<le> g' \<and> g' < hi) \<or> g' < 0)"
      show "block_entry ?w' lo hi g' k = block_entry w lo hi g' k"
      proof (cases "lo \<le> g' \<and> g' < hi")
        case True
        then show ?thesis by (auto simp: block_entry_def)
      next
        case nown: False
        with h have g': "g' < 0" by auto
        have "\<not> (- bsize w * (g + 1) \<le> - bsize w * (g' + 1) + k \<and>
                 - bsize w * (g' + 1) + k < - bsize w * (g + 1) + bsize w)"
          using dep_blocks_disjoint [of "bsize w" g g' k] B h by simp
        moreover have "0 \<le> - bsize w * (g' + 1)"
          using mult_nonneg_nonneg [of "bsize w" "- (g' + 1)"] B g' by (simp add: algebra_simps)
        then have "0 \<le> - bsize w * (g' + 1) + k" using h by simp
        ultimately have "y' ! nat (- bsize w * (g' + 1) + k) = zz ! nat (- bsize w * (g' + 1) + k)"
          using y'(4) by blast
        then show ?thesis using nown zz by (auto simp: block_entry_def)
      qed
    qed
    show ?thesis using run y'(2) zz blk frame by (intro exI [of _ ?w']) simp
  qed
qed

lemma dep_len_transfer:
  assumes "map_option length a = map_option length b"
    and "case b of None \<Rightarrow> P | Some z \<Rightarrow> Q (length z)"
  shows "case a of None \<Rightarrow> P | Some z \<Rightarrow> Q (length z)"
  using assms by (cases a; cases b) auto

lemma list_eq_blocks:
  fixes a b :: "'a list" and n B :: int
  assumes len: "length a = length b" "int (length b) = n * B" and B: "0 \<le> B"
    and eq: "\<forall>j k. 0 \<le> j \<and> j < n \<and> 0 \<le> k \<and> k < B \<longrightarrow> a ! nat (j * B + k) = b ! nat (j * B + k)"
  shows "a = b"
proof (rule nth_equalityI)
  show "length a = length b" by (rule len(1))
next
  fix p assume p: "p < length a"
  then have pn: "int p < n * B" using len by simp
  have Bpos: "0 < B"
  proof (rule ccontr)
    assume "\<not> 0 < B"
    with B have "B = 0" by simp
    with pn show False by simp
  qed
  define j where "j = int p div B"
  define k where "k = int p mod B"
  have jk: "j * B + k = int p" by (simp add: j_def k_def)
  have k: "0 \<le> k" "k < B" using Bpos by (simp_all add: k_def)
  have j0: "0 \<le> j" using Bpos by (simp add: j_def pos_imp_zdiv_nonneg_iff)
  have "j * B \<le> int p" using jk k by linarith
  with pn have "j * B < n * B" by linarith
  then have jn: "j < n" using Bpos by (simp add: mult_less_cancel_right)
  from eq j0 jn k have "a ! nat (j * B + k) = b ! nat (j * B + k)" by blast
  then show "a ! p = b ! p" by (simp add: jk)
qed

lemma setValues_insert_post:
  fixes v :: "'c TACSBVec"
  assumes vm: "var_map v = Some vm"
    and r: "0 \<le> comm_rank (comm v)" "comm_rank (comm v) + 1 < int (length (owner_range vm))"
    and lohi: "lo = owner_range vm ! nat (comm_rank (comm v))"
      "hi = owner_range vm ! nat (comm_rank (comm v) + 1)"
    and B: "0 \<le> bsize v"
    and x: "int (length (x_loc v)) = bsize v * (hi - lo)"
    and z: "case x_dep v of None \<Rightarrow> D = 0 | Some z \<Rightarrow> int (length z) = bsize v * D"
    and idx: "\<forall>g\<in>set index. (lo \<le> g \<and> g < hi) \<or> (g < 0 \<and> - g - 1 < D)"
    and dist: "distinct index"
    and lens: "int (length vals) = int (length index) * bsize v"
  shows "\<exists>v'. setValues (int (length index)) index vals INSERT_VALUES v = Some v' \<and>
           var_map v' = var_map v \<and> comm v' = comm v \<and> bsize v' = bsize v \<and>
           length (x_loc v') = length (x_loc v) \<and>
           map_option length (x_dep v') = map_option length (x_dep v) \<and>
           (\<forall>j k. 0 \<le> j \<and> j < int (length index) \<and> 0 \<le> k \<and> k < bsize v \<longrightarrow>
              block_entry v' lo hi (index ! nat j) k = vals ! nat (j * bsize v + k))"
proof -
  define n where "n = int (length index)"
  define B where "B = bsize v"
  define rank where "rank = comm_rank (comm v)"
  define orange where "orange = owner_range vm"
  let ?J = "\<lambda>i (w :: 'c TACSBVec, vp). vp = i * B \<and> var_map w = var_map v \<and> comm w = comm v \<and>
       bsize w = B \<and> length (x_loc w) = length (x_loc v) \<and>
       map_option length (x_dep w) = map_option length (x_dep v) \<and>
       (\<forall>j k. 0 \<le> j \<and> j < i \<and> 0 \<le> k \<and> k < B \<longrightarrow>
              block_entry w lo hi (index ! nat j) k = vals ! nat (j * B + k))"
  have "\<exists>s'. for_loop 0 n (setValues_at orange rank index vals INSERT_VALUES) (v, 0) = Some s' \<and> ?J n s'"
  proof (rule for_loop_rule [where I = ?J])
    show "?J 0 (v, 0)" by (simp add: B_def)
    show "0 \<le> n" by (simp add: n_def)
  next
    fix i :: int and t :: "'c TACSBVec \<times> int"
    assume i: "0 \<le> i" "i < n" and J: "?J i t"
    obtain w vp where t: "t = (w, vp)" by (cases t)
    from J t have w: "vp = i * B" "var_map w = var_map v" "comm w = comm v" "bsize w = B"
      "length (x_loc w) = length (x_loc v)"
      "map_option length (x_dep w) = map_option length (x_dep v)"
      and prev: "\<forall>j k. 0 \<le> j \<and> j < i \<and> 0 \<le> k \<and> k < B \<longrightarrow>
              block_entry w lo hi (index ! nat j) k = vals ! nat (j * B + k)"
      by simp_all
    let ?g = "index ! nat i"
    have gin: "?g \<in> set index" using i by (simp add: n_def)
    have cls: "(lo \<le> ?g \<and> ?g < hi) \<or> (?g < 0 \<and> - ?g - 1 < D)" using idx gin by blast
    have zw: "case x_dep w of None \<Rightarrow> D = 0 | Some z \<Rightarrow> int (length z) = bsize w * D"
      using dep_len_transfer [OF w(6), of "D = 0" "\<lambda>l. int l = bsize v * D"] z w(4)
      by (simp add: B_def split: option.splits)
    have vpb: "0 \<le> vp" "vp + bsize w \<le> int (length vals)"
      using blk_pos [of B i n] i B w(1,4) lens by (simp_all add: B_def n_def)
    have "\<exists>w'. setValues_at orange rank index vals INSERT_VALUES i (w, vp) = Some (w', vp + bsize w) \<and>
           var_map w' = var_map w \<and> comm w' = comm w \<and> bsize w' = bsize w \<and>
           length (x_loc w') = length (x_loc w) \<and>
           map_option length (x_dep w') = map_option length (x_dep w) \<and>
           (\<forall>k. 0 \<le> k \<and> k < bsize w \<longrightarrow> block_entry w' lo hi ?g k = vals ! nat (vp + k)) \<and>
           (\<forall>g' k. g' \<noteq> ?g \<and> 0 \<le> k \<and> k < bsize w \<and> ((lo \<le> g' \<and> g' < hi) \<or> g' < 0) \<longrightarrow>
              block_entry w' lo hi g' k = block_entry w lo hi g' k)"
    proof (rule setValues_at_insert [where D = D])
      show "0 \<le> rank" "rank + 1 < int (length orange)" using r by (simp_all add: rank_def orange_def)
      show "lo = orange ! nat rank" "hi = orange ! nat (rank + 1)"
        using lohi by (simp_all add: rank_def orange_def)
      show "0 \<le> bsize w" using B w(4) by (simp add: B_def)
      show "0 \<le> i" "i < int (length index)" using i by (simp_all add: n_def)
      show "?g = index ! nat i" ..
      show "(lo \<le> ?g \<and> ?g < hi) \<or> (?g < 0 \<and> - ?g - 1 < D)" by (rule cls)
      show "int (length (x_loc w)) = bsize w * (hi - lo)" using x w(4,5) by (simp add: B_def)
      show "case x_dep w of None \<Rightarrow> D = 0 | Some z \<Rightarrow> int (length z) = bsize w * D" by (rule zw)
      show "0 \<le> vp" "vp + bsize w \<le> int (length vals)" by (rule vpb)+
    qed
    then obtain w' where w': "setValues_at orange rank index vals INSERT_VALUES i (w, vp) = Some (w', vp + bsize w)"
      "var_map w' = var_map w" "comm w' = comm w" "bsize w' = bsize w"
      "length (x_loc w') = length (x_loc w)"
      "map_option length (x_dep w') = map_option length (x_dep w)"
      "\<forall>k. 0 \<le> k \<and> k < bsize w \<longrightarrow> block_entry w' lo hi ?g k = vals ! nat (vp + k)"
      "\<forall>g' k. g' \<noteq> ?g \<and> 0 \<le> k \<and> k < bsize w \<and> ((lo \<le> g' \<and> g' < hi) \<or> g' < 0) \<longrightarrow>
              block_entry w' lo hi g' k = block_entry w lo hi g' k"
      by blast
    have new: "\<forall>j k. 0 \<le> j \<and> j < i + 1 \<and> 0 \<le> k \<and> k < B \<longrightarrow>
              block_entry w' lo hi (index ! nat j) k = vals ! nat (j * B + k)"
    proof (intro allI impI)
      fix j k assume jk: "0 \<le> j \<and> j < i + 1 \<and> 0 \<le> k \<and> k < B"
      show "block_entry w' lo hi (index ! nat j) k = vals ! nat (j * B + k)"
      proof (cases "j = i")
        case True
        then show ?thesis using w'(7) jk w(1,4) by simp
      next
        case False
        with jk have ji: "j < i" by simp
        have "nat j \<noteq> nat i" using jk False i by arith
        moreover have "nat j < length index" "nat i < length index"
          using jk ji i unfolding n_def by arith+
        ultimately have ne: "index ! nat j \<noteq> ?g" using dist by (simp add: nth_eq_iff_index_eq)
        have "index ! nat j \<in> set index" using \<open>nat j < length index\<close> by simp
        with idx have "(lo \<le> index ! nat j \<and> index ! nat j < hi) \<or> index ! nat j < 0" by blast
        with w'(8) ne jk w(4) have "block_entry w' lo hi (index ! nat j) k = block_entry w lo hi (index ! nat j) k"
          by blast
        then show ?thesis using prev jk ji by simp
      qed
    qed
    have "?J (i + 1) (w', vp + bsize w)"
      using w w'(2-6) new by (simp add: algebra_simps)
    with w'(1) t show "\<exists>t'. setValues_at orange rank index vals INSERT_VALUES i t = Some t' \<and> ?J (i + 1) t'"
      by blast
  qed
  then obtain v' vp' where res: "for_loop 0 n (setValues_at orange rank index vals INSERT_VALUES) (v, 0) = Some (v', vp')"
    "?J n (v', vp')" by auto
  have "setValues (int (length index)) index vals INSERT_VALUES v = Some v'"
    using vm res(1) unfolding setValues_def Let_def n_def rank_def orange_def by simp
  with res(2) show ?thesis unfolding n_def B_def by auto
qed

lemma getValues_at_ok:
  fixes v :: "'c TACSBVec"
  assumes r: "0 \<le> rank" "rank + 1 < int (length orange)"
    and lohi: "lo = orange ! nat rank" "hi = orange ! nat (rank + 1)"
    and B: "0 \<le> bsize v"
    and i: "0 \<le> i" "i < int (length index)" and g: "g = index ! nat i"
    and cls: "(lo \<le> g \<and> g < hi) \<or> (g < 0 \<and> - g - 1 < D)"
    and x: "int (length (x_loc v)) = bsize v * (hi - lo)"
    and z: "case x_dep v of None \<Rightarrow> D = 0 | Some z \<Rightarrow> int (length z) = bsize v * D"
    and vp: "0 \<le> vp" "vp + bsize v \<le> int (length out)"
  shows "\<exists>out'. getValues_at orange rank index v i (out, vp) = Some (out', vp + bsize v) \<and>
           length out' = length out \<and>
           (\<forall>k. 0 \<le> k \<and> k < bsize v \<longrightarrow> out' ! nat (vp + k) = block_entry v lo hi g k) \<and>
           (\<forall>p. 0 \<le> p \<and> \<not> (vp \<le> p \<and> p < vp + bsize v) \<longrightarrow> out' ! nat p = out ! nat p)"
proof -
  have rdg: "rd index i = Some g" using i g by (simp add: rd_def)
  have own: "owned orange rank g = Some (lo \<le> g \<and> g < hi)"
    using r lohi by (simp add: owned_Some)
  have rlo: "rd orange rank = Some lo" using r lohi by (simp add: rd_def)
  show ?thesis
  proof (cases "lo \<le> g \<and> g < hi")
    case True
    have b: "0 \<le> bsize v * (g - lo)" "bsize v * (g - lo) + bsize v \<le> int (length (x_loc v))"
      using owned_block_bounds [of "bsize v" lo g hi] B True x by simp_all
    have "getValues_at orange rank index v i (out, vp) =
          blk_get (x_loc v) (bsize v * (g - lo)) out vp (bsize v)"
      using rdg own rlo True by (simp add: getValues_at_def)
    with blk_get_ok [OF B b vp] True show ?thesis by (auto simp: block_entry_def)
  next
    case False
    with cls have neg: "g < 0" "- g - 1 < D" by auto
    from neg B have "0 < D" by linarith
    with z obtain zz where zz: "x_dep v = Some zz" "int (length zz) = bsize v * D"
      by (cases "x_dep v") auto
    have b: "0 \<le> - bsize v * (g + 1)" "- bsize v * (g + 1) + bsize v \<le> int (length zz)"
      using dep_block_bounds [of "bsize v" g D] B neg zz by simp_all
    have "getValues_at orange rank index v i (out, vp) =
          blk_get zz (- bsize v * (g + 1)) out vp (bsize v)"
      using rdg own False neg zz by (auto simp: getValues_at_def)
    with blk_get_ok [OF B b vp] False zz show ?thesis by (auto simp: block_entry_def)
  qed
qed

lemma getValues_reads:
  fixes v :: "'c TACSBVec"
  assumes vm: "var_map v = Some vm"
    and r: "0 \<le> comm_rank (comm v)" "comm_rank (comm v) + 1 < int (length (owner_range vm))"
    and lohi: "lo = owner_range vm ! nat (comm_rank (comm v))"
      "hi = owner_range vm ! nat (comm_rank (comm v) + 1)"
    and B: "0 \<le> bsize v"
    and x: "int (length (x_loc v)) = bsize v * (hi - lo)"
    and z: "case x_dep v of None \<Rightarrow> D = 0 | Some z \<Rightarrow> int (length z) = bsize v * D"
    and idx: "\<forall>g\<in>set index. (lo \<le> g \<and> g < hi) \<or> (g < 0 \<and> - g - 1 < D)"
    and lens: "int (length out) = int (length index) * bsize v"
  shows "\<exists>out'. getValues (int (length index)) index out v = Some out' \<and>
           length out' = length out \<and>
           (\<forall>j k. 0 \<le> j \<and> j < int (length index) \<and> 0 \<le> k \<and> k < bsize v \<longrightarrow>
              out' ! nat (j * bsize v + k) = block_entry v lo hi (index ! nat j) k)"
proof -
  define n where "n = int (length index)"
  define B where "B = bsize v"
  define rank where "rank = comm_rank (comm v)"
  define orange where "orange = owner_range vm"
  let ?K = "\<lambda>i (ou :: real list, vp). vp = i * B \<and> length ou = length out \<and>
       (\<forall>j k. 0 \<le> j \<and> j < i \<and> 0 \<le> k \<and> k < B \<longrightarrow>
              ou ! nat (j * B + k) = block_entry v lo hi (index ! nat j) k)"
  have "\<exists>s'. for_loop 0 n (getValues_at orange rank index v) (out, 0) = Some s' \<and> ?K n s'"
  proof (rule for_loop_rule [where I = ?K])
    show "?K 0 (out, 0)" by simp
    show "0 \<le> n" by (simp add: n_def)
  next
    fix i :: int and t :: "real list \<times> int"
    assume i: "0 \<le> i" "i < n" and K: "?K i t"
    obtain ou vp where t: "t = (ou, vp)" by (cases t)
    from K t have w: "vp = i * B" "length ou = length out"
      and prev: "\<forall>j k. 0 \<le> j \<and> j < i \<and> 0 \<le> k \<and> k < B \<longrightarrow>
              ou ! nat (j * B + k) = block_entry v lo hi (index ! nat j) k"
      by simp_all
    let ?g = "index ! nat i"
    have gin: "?g \<in> set index" using i by (simp add: n_def)
    have cls: "(lo \<le> ?g \<and> ?g < hi) \<or> (?g < 0 \<and> - ?g - 1 < D)" using idx gin by blast
    have vpb: "0 \<le> vp" "vp + bsize v \<le> int (length ou)"
      using blk_pos [of B i n] i B w lens by (simp_all add: B_def n_def)
    have "\<exists>out'. getValues_at orange rank index v i (ou, vp) = Some (out', vp + bsize v) \<and>
           length out' = length ou \<and>
           (\<forall>k. 0 \<le> k \<and> k < bsize v \<longrightarrow> out' ! nat (vp + k) = block_entry v lo hi ?g k) \<and>
           (\<forall>p. 0 \<le> p \<and> \<not> (vp \<le> p \<and> p < vp + bsize v) \<longrightarrow> out' ! nat p = ou ! nat p)"
    proof (rule getValues_at_ok [where D = D])
      show "0 \<le> rank" "rank + 1 < int (length orange)" using r by (simp_all add: rank_def orange_def)
      show "lo = orange ! nat rank" "hi = orange ! nat (rank + 1)"
        using lohi by (simp_all add: rank_def orange_def)
      show "0 \<le> bsize v" by (rule assms(6))
      show "0 \<le> i" "i < int (length index)" using i by (simp_all add: n_def)
      show "?g = index ! nat i" ..
      show "(lo \<le> ?g \<and> ?g < hi) \<or> (?g < 0 \<and> - ?g - 1 < D)" by (rule cls)
      show "int (length (x_loc v)) = bsize v * (hi - lo)" by (rule x)
      show "case x_dep v of None \<Rightarrow> D = 0 | Some z \<Rightarrow> int (length z) = bsize v * D" by (rule z)
      show "0 \<le> vp" "vp + bsize v \<le> int (length ou)" by (rule vpb)+
    qed
    then obtain ou' where ou': "getValues_at orange rank index v i (ou, vp) = Some (ou', vp + bsize v)"
      "length ou' = length ou"
      "\<forall>k. 0 \<le> k \<and> k < bsize v \<longrightarrow> ou' ! nat (vp + k) = block_entry v lo hi ?g k"
      "\<forall>p. 0 \<le> p \<and> \<not> (vp \<le> p \<and> p < vp + bsize v) \<longrightarrow> ou' ! nat p = ou ! nat p"
      by blast
    have new: "\<forall>j k. 0 \<le> j \<and> j < i + 1 \<and> 0 \<le> k \<and> k < B \<longrightarrow>
              ou' ! nat (j * B + k) = block_entry v lo hi (index ! nat j) k"
    proof (intro allI impI)
      fix j k assume jk: "0 \<le> j \<and> j < i + 1 \<and> 0 \<le> k \<and> k < B"
      show "ou' ! nat (j * B + k) = block_entry v lo hi (index ! nat j) k"
      proof (cases "j = i")
        case True
        then show ?thesis using ou'(3) jk w(1) by (simp add: B_def)
      next
        case False
        with jk have ji: "j < i" by simp
        have "j * B + k < i * B" using blk_before [of B j i k] B jk ji by (simp add: B_def)
        moreover have "0 \<le> j * B + k" using jk B by (simp add: B_def)
        ultimately have "ou' ! nat (j * B + k) = ou ! nat (j * B + k)"
          using ou'(4) w(1) by simp
        then show ?thesis using prev jk ji by simp
      qed
    qed
    have "?K (i + 1) (ou', vp + bsize v)"
      using w ou'(2) new by (simp add: algebra_simps B_def)
    with ou'(1) t show "\<exists>t'. getValues_at orange rank index v i t = Some t' \<and> ?K (i + 1) t'"
      by blast
  qed
  then obtain ou vp' where res: "for_loop 0 n (getValues_at orange rank index v) (out, 0) = Some (ou, vp')"
    "?K n (ou, vp')" by auto
  have "getValues (int (length index)) index out v = Some ou"
    using vm res(1) unfolding getValues_def Let_def n_def rank_def orange_def by simp
  with res(2) show ?thesis unfolding n_def B_def by auto
qed


text \<open>
  C10: let every index of the list be owned by this rank (\<open>lo \<le> g < hi\<close>) or dependent
  (\<open>g < 0\<close> and \<open>-g-1 < D\<close>, where the dependent array holds \<open>D\<close> blocks), let the
  indices be distinct, and let \<open>vals\<close> and \<open>out\<close> hold one block of \<open>bsize\<close>
  scalars for each index. Then \<open>setValues\<close> with \<open>INSERT_VALUES\<close> returns a vector, and
  \<open>getValues\<close> on that vector with the same indices returns \<open>vals\<close> in place of
  \<open>out\<close>.
\<close>

theorem insert_then_get:
  fixes v :: "'c TACSBVec"
  assumes vm: "var_map v = Some vm"
    and r: "0 \<le> comm_rank (comm v)" "comm_rank (comm v) + 1 < int (length (owner_range vm))"
    and lohi: "lo = owner_range vm ! nat (comm_rank (comm v))"
      "hi = owner_range vm ! nat (comm_rank (comm v) + 1)"
    and B: "0 \<le> bsize v"
    and x: "int (length (x_loc v)) = bsize v * (hi - lo)"
    and z: "case x_dep v of None \<Rightarrow> D = 0 | Some z \<Rightarrow> int (length z) = bsize v * D"
    and idx: "\<forall>g\<in>set index. (lo \<le> g \<and> g < hi) \<or> (g < 0 \<and> - g - 1 < D)"
    and dist: "distinct index"
    and lens: "int (length vals) = int (length index) * bsize v" "length out = length vals"
  shows "\<exists>v'. setValues (int (length index)) index vals INSERT_VALUES v = Some v' \<and>
              getValues (int (length index)) index out v' = Some vals"
proof -
  from setValues_insert_post [OF vm r lohi B x z idx dist lens(1)]
  obtain v' where v': "setValues (int (length index)) index vals INSERT_VALUES v = Some v'"
    "var_map v' = var_map v" "comm v' = comm v" "bsize v' = bsize v"
    "length (x_loc v') = length (x_loc v)"
    "map_option length (x_dep v') = map_option length (x_dep v)"
    "\<forall>j k. 0 \<le> j \<and> j < int (length index) \<and> 0 \<le> k \<and> k < bsize v \<longrightarrow>
              block_entry v' lo hi (index ! nat j) k = vals ! nat (j * bsize v + k)"
    by blast
  have z': "case x_dep v' of None \<Rightarrow> D = 0 | Some z \<Rightarrow> int (length z) = bsize v' * D"
    using dep_len_transfer [OF v'(6), of "D = 0" "\<lambda>l. int l = bsize v * D"] z v'(4)
    by (simp split: option.splits)
  have "\<exists>out'. getValues (int (length index)) index out v' = Some out' \<and>
           length out' = length out \<and>
           (\<forall>j k. 0 \<le> j \<and> j < int (length index) \<and> 0 \<le> k \<and> k < bsize v' \<longrightarrow>
              out' ! nat (j * bsize v' + k) = block_entry v' lo hi (index ! nat j) k)"
  proof (rule getValues_reads [where D = D and vm = vm])
    show "var_map v' = Some vm" using vm v'(2) by simp
    show "0 \<le> comm_rank (comm v')" "comm_rank (comm v') + 1 < int (length (owner_range vm))"
      using r v'(3) by simp_all
    show "lo = owner_range vm ! nat (comm_rank (comm v'))"
      "hi = owner_range vm ! nat (comm_rank (comm v') + 1)" using lohi v'(3) by simp_all
    show "0 \<le> bsize v'" using B v'(4) by simp
    show "int (length (x_loc v')) = bsize v' * (hi - lo)" using x v'(4,5) by simp
    show "case x_dep v' of None \<Rightarrow> D = 0 | Some z \<Rightarrow> int (length z) = bsize v' * D" by (rule z')
    show "\<forall>g\<in>set index. (lo \<le> g \<and> g < hi) \<or> (g < 0 \<and> - g - 1 < D)" by (rule idx)
    show "int (length out) = int (length index) * bsize v'" using lens v'(4) by simp
  qed
  then obtain out' where out': "getValues (int (length index)) index out v' = Some out'"
    "length out' = length out"
    "\<forall>j k. 0 \<le> j \<and> j < int (length index) \<and> 0 \<le> k \<and> k < bsize v' \<longrightarrow>
              out' ! nat (j * bsize v' + k) = block_entry v' lo hi (index ! nat j) k"
    by blast
  have "out' = vals"
  proof (rule list_eq_blocks [where n = "int (length index)" and B = "bsize v"])
    show "length out' = length vals" using out'(2) lens(2) by simp
    show "int (length vals) = int (length index) * bsize v" by (rule lens(1))
    show "0 \<le> bsize v" by (rule B)
    show "\<forall>j k. 0 \<le> j \<and> j < int (length index) \<and> 0 \<le> k \<and> k < bsize v \<longrightarrow>
         out' ! nat (j * bsize v + k) = vals ! nat (j * bsize v + k)"
      using out'(3) v'(4,7) by simp
  qed
  with v'(1) out'(1) show ?thesis by blast
qed

theorem insert_then_get_witness:
  "setValues 3 [1, - 1, 0] [10, 11, 20, 21, 30, 31] INSERT_VALUES ex_vec =
     Some (ex_vec\<lparr> x_loc := [30, 31, 10, 11], x_dep := Some [20, 21] \<rparr>) \<and>
   getValues 3 [1, - 1, 0] [0, 0, 0, 0, 0, 0]
     (ex_vec\<lparr> x_loc := [30, 31, 10, 11], x_dep := Some [20, 21] \<rparr>) =
     Some [10, 11, 20, 21, 30, 31]"
proof -
  have vm: "var_map ex_vec = Some ex_map" by (simp add: ex_vec_def)
  have r: "0 \<le> comm_rank (comm ex_vec)"
    "comm_rank (comm ex_vec) + 1 < int (length (owner_range ex_map))"
    by (simp_all add: ex_vec_def ex_map_def)
  have lohi: "0 = owner_range ex_map ! nat (comm_rank (comm ex_vec))"
    "2 = owner_range ex_map ! nat (comm_rank (comm ex_vec) + 1)"
    by (simp_all add: ex_vec_def ex_map_def)
  have B: "0 \<le> bsize ex_vec" by (simp add: ex_vec_def)
  have x: "int (length (x_loc ex_vec)) = bsize ex_vec * (2 - 0)" by (simp add: ex_vec_def)
  have z: "case x_dep ex_vec of None \<Rightarrow> (1::int) = 0
           | Some z \<Rightarrow> int (length z) = bsize ex_vec * 1"
    by (simp add: ex_vec_def)
  have idx: "\<forall>g\<in>set [1, - 1, 0 :: int]. (0 \<le> g \<and> g < 2) \<or> (g < 0 \<and> - g - 1 < 1)" by simp
  have dist: "distinct [1, - 1, 0 :: int]" by simp
  have lens: "int (length [10, 11, 20, 21, 30, 31 :: real]) = int (length [1, - 1, 0 :: int]) * bsize ex_vec"
    "length [0, 0, 0, 0, 0, 0 :: real] = length [10, 11, 20, 21, 30, 31 :: real]"
    by (simp_all add: ex_vec_def)
  have e: "setValues 3 [1, - 1, 0] [10, 11, 20, 21, 30, 31] INSERT_VALUES ex_vec =
     Some (ex_vec\<lparr> x_loc := [30, 31, 10, 11], x_dep := Some [20, 21] \<rparr>)"
    by (simp add: setValues_def setValues_at_def ex_vec_def ex_map_def owned_def blk_set_def
        blk_upd_def for_loop.simps rd_def wr_def)
  from insert_then_get [OF vm r lohi B x z idx dist lens]
  obtain v' where "setValues (int (length [1, - 1, 0 :: int])) [1, - 1, 0]
        [10, 11, 20, 21, 30, 31] INSERT_VALUES ex_vec = Some v'"
    "getValues (int (length [1, - 1, 0 :: int])) [1, - 1, 0] [0, 0, 0, 0, 0, 0] v' =
        Some [10, 11, 20, 21, 30, 31]"
    by blast
  with e show ?thesis by simp
qed

subsection \<open>Evaluating the dependent nodes\<close>

lemma upto_snoc: "(a::int) \<le> j \<Longrightarrow> [a..j] = [a..j - 1] @ [j]"
  by (rule upto_rec2)

lemma parent_ok_owned:
  "lo \<le> c \<and> c < hi \<Longrightarrow> parent_ok v lo hi c \<Longrightarrow>
   bsize v * (c - lo) + bsize v \<le> int (length (x_loc v))"
  by (simp add: parent_ok_def)

lemma parent_ok_ghost:
  assumes "\<not> (lo \<le> c \<and> c < hi)" "parent_ok v lo hi c"
  obtains ind e where "ext_indices v = Some ind" "x_ext v = Some e"
    "0 \<le> bsize v * findIndex ind c" "bsize v * findIndex ind c + bsize v \<le> int (length e)"
proof -
  from assms have "case (ext_indices v, x_ext v) of
              (Some ind, Some e) \<Rightarrow>
                0 \<le> bsize v * findIndex ind c \<and>
                bsize v * findIndex ind c + bsize v \<le> int (length e)
            | _ \<Rightarrow> False"
    unfolding parent_ok_def by (simp only: if_False)
  then show thesis
    by (cases "ext_indices v"; cases "x_ext v") (auto intro: that)
qed

lemma eval_parent_ok:
  fixes v :: "'c TACSBVec"
  assumes r: "0 \<le> rank" "rank + 1 < int (length orange)"
    and lohi: "lo = orange ! nat rank" "hi = orange ! nat (rank + 1)"
    and B: "0 \<le> bsize v"
    and jp: "0 \<le> jp" "jp < int (length (dep_conn dn))" "jp < int (length (dep_weights dn))"
    and ok: "parent_ok v lo hi (dep_conn dn ! nat jp)"
    and zi: "0 \<le> zi" "zi + bsize v \<le> int (length z)"
  shows "\<exists>z'. eval_parent dn orange rank v zi jp z = Some z' \<and> length z' = length z \<and>
           (\<forall>k. 0 \<le> k \<and> k < bsize v \<longrightarrow>
              z' ! nat (zi + k) = z ! nat (zi + k) +
                 dep_weights dn ! nat jp * parent_entry v lo hi (dep_conn dn ! nat jp) k) \<and>
           (\<forall>p. 0 \<le> p \<and> \<not> (zi \<le> p \<and> p < zi + bsize v) \<longrightarrow> z' ! nat p = z ! nat p)"
proof -
  let ?c = "dep_conn dn ! nat jp"
  have rdc: "rd (dep_conn dn) jp = Some ?c" using jp by (simp add: rd_def)
  have own: "owned orange rank ?c = Some (lo \<le> ?c \<and> ?c < hi)"
    using r lohi by (simp add: owned_Some)
  have rlo: "rd orange rank = Some lo" using r lohi by (simp add: rd_def)
  show ?thesis
  proof (cases "lo \<le> ?c \<and> ?c < hi")
    case True
    have b: "0 \<le> bsize v * (?c - lo)" "bsize v * (?c - lo) + bsize v \<le> int (length (x_loc v))"
      using B True parent_ok_owned [OF True ok] by simp_all
    have "eval_parent dn orange rank v zi jp z =
          blk_axpy (dep_weights dn) jp (x_loc v) (bsize v * (?c - lo)) z zi (bsize v)"
      using rdc own rlo True by (simp add: eval_parent_def)
    with blk_axpy_ok [OF zi b jp(1,3)] True show ?thesis
      by (auto simp: parent_entry_def)
  next
    case False
    from parent_ok_ghost [OF False ok] obtain ind e where ie: "ext_indices v = Some ind"
      "x_ext v = Some e" "0 \<le> bsize v * findIndex ind ?c"
      "bsize v * findIndex ind ?c + bsize v \<le> int (length e)" by blast
    have "eval_parent dn orange rank v zi jp z =
          blk_axpy (dep_weights dn) jp e (bsize v * findIndex ind ?c) z zi (bsize v)"
      using rdc own False ie by (auto simp: eval_parent_def)
    with blk_axpy_ok [OF zi ie(3,4) jp(1,3)] False ie show ?thesis
      by (auto simp: parent_entry_def)
  qed
qed

text \<open>The loop over the parents of one dependent node.\<close>

lemma eval_parents_ok:
  fixes v :: "'c TACSBVec"
  assumes r: "0 \<le> rank" "rank + 1 < int (length orange)"
    and lohi: "lo = orange ! nat rank" "hi = orange ! nat (rank + 1)"
    and B: "0 \<le> bsize v"
    and par: "\<forall>jp. jp0 \<le> jp \<and> jp < jp1 \<longrightarrow>
                0 \<le> jp \<and> jp < int (length (dep_conn dn)) \<and> jp < int (length (dep_weights dn)) \<and>
                parent_ok v lo hi (dep_conn dn ! nat jp)"
    and zi: "0 \<le> zi" "zi + bsize v \<le> int (length z)"
  shows "\<exists>z'. for_loop jp0 jp1 (eval_parent dn orange rank v zi) z = Some z' \<and>
           length z' = length z \<and>
           (\<forall>k. 0 \<le> k \<and> k < bsize v \<longrightarrow>
              z' ! nat (zi + k) = z ! nat (zi + k) +
                (\<Sum>jp\<leftarrow>[jp0..jp1 - 1].
                    dep_weights dn ! nat jp * parent_entry v lo hi (dep_conn dn ! nat jp) k)) \<and>
           (\<forall>p. 0 \<le> p \<and> \<not> (zi \<le> p \<and> p < zi + bsize v) \<longrightarrow> z' ! nat p = z ! nat p)"
proof -
  let ?f = "\<lambda>k jp. dep_weights dn ! nat jp * parent_entry v lo hi (dep_conn dn ! nat jp) k"
  let ?I = "\<lambda>j u. length u = length z \<and>
           (\<forall>k. 0 \<le> k \<and> k < bsize v \<longrightarrow>
              u ! nat (zi + k) = z ! nat (zi + k) + (\<Sum>jp\<leftarrow>[jp0..j - 1]. ?f k jp)) \<and>
           (\<forall>p. 0 \<le> p \<and> \<not> (zi \<le> p \<and> p < zi + bsize v) \<longrightarrow> u ! nat p = z ! nat p)"
  have "\<exists>z'. for_loop jp0 jp1 (eval_parent dn orange rank v zi) z = Some z' \<and> ?I (max jp0 jp1) z'"
  proof (rule for_loop_rule_any [where I = ?I])
    show "?I jp0 z" by simp
  next
    fix j u assume j: "jp0 \<le> j" "j < jp1" and I: "?I j u"
    from par j have pj: "0 \<le> j" "j < int (length (dep_conn dn))"
      "j < int (length (dep_weights dn))" "parent_ok v lo hi (dep_conn dn ! nat j)" by auto
    have ziu: "0 \<le> zi" "zi + bsize v \<le> int (length u)" using zi I by simp_all
    from eval_parent_ok [OF r lohi B pj ziu]
    obtain u' where u': "eval_parent dn orange rank v zi j u = Some u'" "length u' = length u"
      "\<forall>k. 0 \<le> k \<and> k < bsize v \<longrightarrow> u' ! nat (zi + k) = u ! nat (zi + k) + ?f k j"
      "\<forall>p. 0 \<le> p \<and> \<not> (zi \<le> p \<and> p < zi + bsize v) \<longrightarrow> u' ! nat p = u ! nat p"
      by blast
    have snoc: "[jp0..j + 1 - 1] = [jp0..j - 1] @ [j]" using upto_snoc [OF j(1)] by simp
    have "?I (j + 1) u'"
      using I u'(2-4) unfolding snoc by simp
    with u'(1) show "\<exists>t'. eval_parent dn orange rank v zi j u = Some t' \<and> ?I (j + 1) t'"
      by blast
  qed
  moreover have "[jp0..max jp0 jp1 - 1] = [jp0..jp1 - 1]" by (simp add: max_def)
  ultimately show ?thesis by simp
qed

lemma eval_node_ok:
  fixes v :: "'c TACSBVec"
  assumes r: "0 \<le> rank" "rank + 1 < int (length orange)"
    and lohi: "lo = orange ! nat rank" "hi = orange ! nat (rank + 1)"
    and B: "0 \<le> bsize v"
    and i: "0 \<le> i" "i + 1 < int (length (dep_ptr dn))"
    and par: "\<forall>jp. dep_ptr dn ! nat i \<le> jp \<and> jp < dep_ptr dn ! nat (i + 1) \<longrightarrow>
                0 \<le> jp \<and> jp < int (length (dep_conn dn)) \<and> jp < int (length (dep_weights dn)) \<and>
                parent_ok v lo hi (dep_conn dn ! nat jp)"
    and zi: "0 \<le> zi" "zi + bsize v \<le> int (length z)"
  shows "\<exists>z'. eval_node dn orange rank v i (z, zi) = Some (z', zi + bsize v) \<and>
           length z' = length z \<and>
           (\<forall>k. 0 \<le> k \<and> k < bsize v \<longrightarrow>
              z' ! nat (zi + k) =
                (\<Sum>jp\<leftarrow>[dep_ptr dn ! nat i..dep_ptr dn ! nat (i + 1) - 1].
                    dep_weights dn ! nat jp * parent_entry v lo hi (dep_conn dn ! nat jp) k)) \<and>
           (\<forall>p. 0 \<le> p \<and> \<not> (zi \<le> p \<and> p < zi + bsize v) \<longrightarrow> z' ! nat p = z ! nat p)"
proof -
  from zero_block_ok [OF zi]
  obtain z1 where z1: "for_loop 0 (bsize v) (\<lambda>k z. wr z (zi + k) 0) z = Some z1"
    "length z1 = length z"
    "\<forall>k. 0 \<le> k \<and> k < bsize v \<longrightarrow> z1 ! nat (zi + k) = 0"
    "\<forall>p. 0 \<le> p \<and> \<not> (zi \<le> p \<and> p < zi + bsize v) \<longrightarrow> z1 ! nat p = z ! nat p"
    by blast
  have zi1: "0 \<le> zi" "zi + bsize v \<le> int (length z1)" using zi z1(2) by simp_all
  from eval_parents_ok [OF r lohi B par zi1]
  obtain z2 where z2:
    "for_loop (dep_ptr dn ! nat i) (dep_ptr dn ! nat (i + 1)) (eval_parent dn orange rank v zi) z1
       = Some z2"
    "length z2 = length z1"
    "\<forall>k. 0 \<le> k \<and> k < bsize v \<longrightarrow>
              z2 ! nat (zi + k) = z1 ! nat (zi + k) +
                (\<Sum>jp\<leftarrow>[dep_ptr dn ! nat i..dep_ptr dn ! nat (i + 1) - 1].
                    dep_weights dn ! nat jp * parent_entry v lo hi (dep_conn dn ! nat jp) k)"
    "\<forall>p. 0 \<le> p \<and> \<not> (zi \<le> p \<and> p < zi + bsize v) \<longrightarrow> z2 ! nat p = z1 ! nat p"
    by blast
  have rds: "rd (dep_ptr dn) i = Some (dep_ptr dn ! nat i)"
    "rd (dep_ptr dn) (i + 1) = Some (dep_ptr dn ! nat (i + 1))"
    using i by (simp_all add: rd_def)
  have "eval_node dn orange rank v i (z, zi) = Some (z2, zi + bsize v)"
    using z1(1) z2(1) rds by (simp add: eval_node_def)
  moreover have "length z2 = length z" using z1(2) z2(2) by simp
  moreover have "\<forall>k. 0 \<le> k \<and> k < bsize v \<longrightarrow>
              z2 ! nat (zi + k) =
                (\<Sum>jp\<leftarrow>[dep_ptr dn ! nat i..dep_ptr dn ! nat (i + 1) - 1].
                    dep_weights dn ! nat jp * parent_entry v lo hi (dep_conn dn ! nat jp) k)"
    using z1(3) z2(3) by simp
  moreover have "\<forall>p. 0 \<le> p \<and> \<not> (zi \<le> p \<and> p < zi + bsize v) \<longrightarrow> z2 ! nat p = z ! nat p"
    using z1(4) z2(4) by simp
  ultimately show ?thesis by blast
qed

lemma eval_dep_ok:
  fixes v :: "'c TACSBVec"
  assumes vm: "var_map v = Some vm"
    and r: "0 \<le> comm_rank (comm v)" "comm_rank (comm v) + 1 < int (length (owner_range vm))"
    and lohi: "lo = owner_range vm ! nat (comm_rank (comm v))"
      "hi = owner_range vm ! nat (comm_rank (comm v) + 1)"
    and B: "0 \<le> bsize v"
    and z0: "x_dep v = Some z0" "int (length z0) = bsize v * ndep dn"
    and ptr: "ndep dn < int (length (dep_ptr dn))"
    and par: "\<forall>i jp. 0 \<le> i \<and> i < ndep dn \<and>
                dep_ptr dn ! nat i \<le> jp \<and> jp < dep_ptr dn ! nat (i + 1) \<longrightarrow>
                0 \<le> jp \<and> jp < int (length (dep_conn dn)) \<and> jp < int (length (dep_weights dn)) \<and>
                parent_ok v lo hi (dep_conn dn ! nat jp)"
  shows "\<exists>z'. eval_dep dn v = Some (v\<lparr> x_dep := Some z' \<rparr>) \<and> length z' = length z0 \<and>
           (\<forall>i k. 0 \<le> i \<and> i < ndep dn \<and> 0 \<le> k \<and> k < bsize v \<longrightarrow>
              z' ! nat (bsize v * i + k) =
                (\<Sum>jp\<leftarrow>[dep_ptr dn ! nat i..dep_ptr dn ! nat (i + 1) - 1].
                    dep_weights dn ! nat jp * parent_entry v lo hi (dep_conn dn ! nat jp) k))"
proof -
  define n where "n = ndep dn"
  define B where "B = bsize v"
  define rank where "rank = comm_rank (comm v)"
  define orange where "orange = owner_range vm"
  define S where "S = (\<lambda>i k. \<Sum>jp\<leftarrow>[dep_ptr dn ! nat i..dep_ptr dn ! nat (i + 1) - 1].
                    dep_weights dn ! nat jp * parent_entry v lo hi (dep_conn dn ! nat jp) k)"
  let ?L = "\<lambda>i (z :: real list, zi). zi = i * B \<and> length z = length z0 \<and>
       (\<forall>j k. 0 \<le> j \<and> j < i \<and> 0 \<le> k \<and> k < B \<longrightarrow> z ! nat (j * B + k) = S j k)"
  have "\<exists>s'. for_loop 0 n (eval_node dn orange rank v) (z0, 0) = Some s' \<and> ?L (max 0 n) s'"
  proof (rule for_loop_rule_any [where I = ?L])
    show "?L 0 (z0, 0)" by simp
  next
    fix i :: int and t :: "real list \<times> int"
    assume i: "0 \<le> i" "i < n" and L: "?L i t"
    obtain z zi where t: "t = (z, zi)" by (cases t)
    from L t have w: "zi = i * B" "length z = length z0"
      and prev: "\<forall>j k. 0 \<le> j \<and> j < i \<and> 0 \<le> k \<and> k < B \<longrightarrow> z ! nat (j * B + k) = S j k"
      by simp_all
    have zib: "0 \<le> zi" "zi + bsize v \<le> int (length z)"
      using blk_pos [of B i n] i assms(6) w z0(2) by (simp_all add: B_def n_def mult.commute)
    have "\<exists>z'. eval_node dn orange rank v i (z, zi) = Some (z', zi + bsize v) \<and>
           length z' = length z \<and>
           (\<forall>k. 0 \<le> k \<and> k < bsize v \<longrightarrow>
              z' ! nat (zi + k) =
                (\<Sum>jp\<leftarrow>[dep_ptr dn ! nat i..dep_ptr dn ! nat (i + 1) - 1].
                    dep_weights dn ! nat jp * parent_entry v lo hi (dep_conn dn ! nat jp) k)) \<and>
           (\<forall>p. 0 \<le> p \<and> \<not> (zi \<le> p \<and> p < zi + bsize v) \<longrightarrow> z' ! nat p = z ! nat p)"
    proof (rule eval_node_ok)
      show "0 \<le> rank" "rank + 1 < int (length orange)" using r by (simp_all add: rank_def orange_def)
      show "lo = orange ! nat rank" "hi = orange ! nat (rank + 1)"
        using lohi by (simp_all add: rank_def orange_def)
      show "0 \<le> bsize v" by (rule assms(6))
      show "0 \<le> i" "i + 1 < int (length (dep_ptr dn))" using i ptr by (simp_all add: n_def)
      show "\<forall>jp. dep_ptr dn ! nat i \<le> jp \<and> jp < dep_ptr dn ! nat (i + 1) \<longrightarrow>
                0 \<le> jp \<and> jp < int (length (dep_conn dn)) \<and> jp < int (length (dep_weights dn)) \<and>
                parent_ok v lo hi (dep_conn dn ! nat jp)"
        using par i by (simp add: n_def)
      show "0 \<le> zi" "zi + bsize v \<le> int (length z)" by (rule zib)+
    qed
    then obtain z' where z': "eval_node dn orange rank v i (z, zi) = Some (z', zi + bsize v)"
      "length z' = length z"
      "\<forall>k. 0 \<le> k \<and> k < bsize v \<longrightarrow> z' ! nat (zi + k) = S i k"
      "\<forall>p. 0 \<le> p \<and> \<not> (zi \<le> p \<and> p < zi + bsize v) \<longrightarrow> z' ! nat p = z ! nat p"
      unfolding S_def by blast
    have new: "\<forall>j k. 0 \<le> j \<and> j < i + 1 \<and> 0 \<le> k \<and> k < B \<longrightarrow> z' ! nat (j * B + k) = S j k"
    proof (intro allI impI)
      fix j k assume jk: "0 \<le> j \<and> j < i + 1 \<and> 0 \<le> k \<and> k < B"
      show "z' ! nat (j * B + k) = S j k"
      proof (cases "j = i")
        case True
        then show ?thesis using z'(3) jk w(1) by (simp add: B_def)
      next
        case False
        with jk have ji: "j < i" by simp
        have "j * B + k < i * B" using blk_before [of B j i k] assms(6) jk ji by (simp add: B_def)
        moreover have "0 \<le> j * B + k" using jk assms(6) by (simp add: B_def)
        ultimately have "z' ! nat (j * B + k) = z ! nat (j * B + k)"
          using z'(4) w(1) by simp
        then show ?thesis using prev jk ji by simp
      qed
    qed
    have "?L (i + 1) (z', zi + bsize v)"
      using w z'(2) new by (simp add: algebra_simps B_def)
    with z'(1) t show "\<exists>t'. eval_node dn orange rank v i t = Some t' \<and> ?L (i + 1) t'"
      by blast
  qed
  then obtain z' zi' where res: "for_loop 0 n (eval_node dn orange rank v) (z0, 0) = Some (z', zi')"
    "?L (max 0 n) (z', zi')" by auto
  have "eval_dep dn v = Some (v\<lparr> x_dep := Some z' \<rparr>)"
    using vm z0(1) res(1) unfolding eval_dep_def Let_def n_def rank_def orange_def by simp
  moreover have "length z' = length z0" using res(2) by simp
  moreover have "\<forall>i k. 0 \<le> i \<and> i < ndep dn \<and> 0 \<le> k \<and> k < bsize v \<longrightarrow>
              z' ! nat (bsize v * i + k) = S i k"
    using res(2) by (auto simp: n_def B_def max_def mult.commute)
  ultimately show ?thesis unfolding S_def by blast
qed

lemma call_forward_x_dep:
  "call_forward f (v\<lparr> x_dep := a \<rparr>) = map_option (\<lambda>w. w\<lparr> x_dep := a \<rparr>) (call_forward f v)"
  by (simp add: call_forward_def split: option.splits prod.splits)

lemma parent_x_dep [simp]:
  "parent_ok (v\<lparr> x_dep := a \<rparr>) lo hi c = parent_ok v lo hi c"
  "parent_entry (v\<lparr> x_dep := a \<rparr>) lo hi c k = parent_entry v lo hi c k"
  by (simp_all add: parent_ok_def parent_entry_def split: option.splits)


text \<open>
  C3: let \<open>v1\<close> be the vector when the forward exchange has completed (the vector
  itself when there is no plan), with a table of dependent nodes. Then
  \<open>endDistributeValues\<close> returns \<open>v1\<close> with a new dependent array, in which entry
  \<open>B\<cdot>i + k\<close> is the sum, over the parents \<open>jp\<close> of the dependent node \<open>i\<close>, of
  \<open>dep_weights[jp]\<close> times entry \<open>k\<close> of the parent's block, read from the owned
  values when the parent is owned and from the ghost values at \<open>B\<cdot>findIndex\<close>
  otherwise. The result is the same for every prior content of the dependent array. The
  hypotheses say that the accesses the source makes are inside the arrays.
\<close>

theorem endDistributeValues_dependents:
  fixes v v1 :: "'c TACSBVec"
  assumes fwd: "(case ext_dist v of Some d \<Rightarrow> call_forward (endForward d) v | None \<Rightarrow> Some v)
                = Some v1"
    and dn: "dep_nodes v1 = Some dn"
    and vm: "var_map v1 = Some vm"
    and r: "0 \<le> comm_rank (comm v1)" "comm_rank (comm v1) + 1 < int (length (owner_range vm))"
    and lohi: "lo = owner_range vm ! nat (comm_rank (comm v1))"
      "hi = owner_range vm ! nat (comm_rank (comm v1) + 1)"
    and B: "0 \<le> bsize v1"
    and z0: "x_dep v1 = Some z0" "int (length z0) = bsize v1 * ndep dn"
    and ptr: "ndep dn < int (length (dep_ptr dn))"
    and par: "\<forall>i jp. 0 \<le> i \<and> i < ndep dn \<and>
                dep_ptr dn ! nat i \<le> jp \<and> jp < dep_ptr dn ! nat (i + 1) \<longrightarrow>
                0 \<le> jp \<and> jp < int (length (dep_conn dn)) \<and> jp < int (length (dep_weights dn)) \<and>
                parent_ok v1 lo hi (dep_conn dn ! nat jp)"
  shows "\<exists>z'. endDistributeValues v = Some (v1\<lparr> x_dep := Some z' \<rparr>) \<and> length z' = length z0 \<and>
           (\<forall>i k. 0 \<le> i \<and> i < ndep dn \<and> 0 \<le> k \<and> k < bsize v1 \<longrightarrow>
              z' ! nat (bsize v1 * i + k) =
                (\<Sum>jp\<leftarrow>[dep_ptr dn ! nat i..dep_ptr dn ! nat (i + 1) - 1].
                    dep_weights dn ! nat jp * parent_entry v1 lo hi (dep_conn dn ! nat jp) k)) \<and>
           (\<forall>zz. length zz = length z0 \<longrightarrow>
              endDistributeValues (v\<lparr> x_dep := Some zz \<rparr>) = Some (v1\<lparr> x_dep := Some z' \<rparr>))"
proof -
  let ?S = "\<lambda>i k. \<Sum>jp\<leftarrow>[dep_ptr dn ! nat i..dep_ptr dn ! nat (i + 1) - 1].
                    dep_weights dn ! nat jp * parent_entry v1 lo hi (dep_conn dn ! nat jp) k"
  from eval_dep_ok [OF vm r lohi B z0 ptr par]
  obtain z' where z': "eval_dep dn v1 = Some (v1\<lparr> x_dep := Some z' \<rparr>)" "length z' = length z0"
    "\<forall>i k. 0 \<le> i \<and> i < ndep dn \<and> 0 \<le> k \<and> k < bsize v1 \<longrightarrow> z' ! nat (bsize v1 * i + k) = ?S i k"
    by blast
  have run: "endDistributeValues v = Some (v1\<lparr> x_dep := Some z' \<rparr>)"
    using fwd dn z'(1) by (simp add: endDistributeValues_def)
  have indep: "endDistributeValues (v\<lparr> x_dep := Some zz \<rparr>) = Some (v1\<lparr> x_dep := Some z' \<rparr>)"
    if zz: "length zz = length z0" for zz
  proof -
    let ?u = "v1\<lparr> x_dep := Some zz \<rparr>"
    have fwd': "(case ext_dist (v\<lparr> x_dep := Some zz \<rparr>) of
                   Some d \<Rightarrow> call_forward (endForward d) (v\<lparr> x_dep := Some zz \<rparr>)
                 | None \<Rightarrow> Some (v\<lparr> x_dep := Some zz \<rparr>)) = Some ?u"
      using fwd by (cases "ext_dist v") (auto simp: call_forward_x_dep)
    have "\<exists>z''. eval_dep dn ?u = Some (?u\<lparr> x_dep := Some z'' \<rparr>) \<and> length z'' = length zz \<and>
           (\<forall>i k. 0 \<le> i \<and> i < ndep dn \<and> 0 \<le> k \<and> k < bsize ?u \<longrightarrow>
              z'' ! nat (bsize ?u * i + k) =
                (\<Sum>jp\<leftarrow>[dep_ptr dn ! nat i..dep_ptr dn ! nat (i + 1) - 1].
                    dep_weights dn ! nat jp * parent_entry ?u lo hi (dep_conn dn ! nat jp) k))"
    proof (rule eval_dep_ok [where vm = vm])
      show "var_map ?u = Some vm" using vm by simp
      show "0 \<le> comm_rank (comm ?u)" "comm_rank (comm ?u) + 1 < int (length (owner_range vm))"
        using r by simp_all
      show "lo = owner_range vm ! nat (comm_rank (comm ?u))"
        "hi = owner_range vm ! nat (comm_rank (comm ?u) + 1)" using lohi by simp_all
      show "0 \<le> bsize ?u" using B by simp
      show "x_dep ?u = Some zz" by simp
      show "int (length zz) = bsize ?u * ndep dn" using z0(2) zz by simp
      show "ndep dn < int (length (dep_ptr dn))" by (rule ptr)
      show "\<forall>i jp. 0 \<le> i \<and> i < ndep dn \<and>
                dep_ptr dn ! nat i \<le> jp \<and> jp < dep_ptr dn ! nat (i + 1) \<longrightarrow>
                0 \<le> jp \<and> jp < int (length (dep_conn dn)) \<and> jp < int (length (dep_weights dn)) \<and>
                parent_ok ?u lo hi (dep_conn dn ! nat jp)"
        using par by simp
    qed
    then obtain z'' where z'': "eval_dep dn ?u = Some (v1\<lparr> x_dep := Some z'' \<rparr>)"
      "length z'' = length zz"
      "\<forall>i k. 0 \<le> i \<and> i < ndep dn \<and> 0 \<le> k \<and> k < bsize v1 \<longrightarrow> z'' ! nat (bsize v1 * i + k) = ?S i k"
      by auto
    have "z'' = z'"
    proof (rule list_eq_blocks [where n = "ndep dn" and B = "bsize v1"])
      show "length z'' = length z'" using z''(2) z'(2) zz by simp
      show "int (length z') = ndep dn * bsize v1" using z'(2) z0(2) by (simp add: mult.commute)
      show "0 \<le> bsize v1" by (rule B)
      show "\<forall>j k. 0 \<le> j \<and> j < ndep dn \<and> 0 \<le> k \<and> k < bsize v1 \<longrightarrow>
              z'' ! nat (j * bsize v1 + k) = z' ! nat (j * bsize v1 + k)"
        using z''(3) z'(3) by (simp add: mult.commute)
    qed
    with z''(1) fwd' dn show ?thesis by (simp add: endDistributeValues_def)
  qed
  from run z'(2,3) indep show ?thesis by blast
qed

theorem endDistributeValues_dependents_witness:
  "endDistributeValues ex_vec = Some (ex_vec\<lparr> x_dep := Some [3, 4] \<rparr>) \<and>
   endDistributeValues (ex_vec\<lparr> x_dep := Some [100, 200] \<rparr>) = Some (ex_vec\<lparr> x_dep := Some [3, 4] \<rparr>)"
proof -
  have fwd: "(case ext_dist ex_vec of Some d \<Rightarrow> call_forward (endForward d) ex_vec
              | None \<Rightarrow> Some ex_vec) = Some ex_vec"
    by (simp add: ex_vec_def ex_dist_def call_forward_def in_place_def)
  have dn: "dep_nodes ex_vec = Some ex_deps" and vm: "var_map ex_vec = Some ex_map"
    by (simp_all add: ex_vec_def)
  have r: "0 \<le> comm_rank (comm ex_vec)"
    "comm_rank (comm ex_vec) + 1 < int (length (owner_range ex_map))"
    by (simp_all add: ex_vec_def ex_map_def)
  have lohi: "0 = owner_range ex_map ! nat (comm_rank (comm ex_vec))"
    "2 = owner_range ex_map ! nat (comm_rank (comm ex_vec) + 1)"
    by (simp_all add: ex_vec_def ex_map_def)
  have B: "0 \<le> bsize ex_vec" by (simp add: ex_vec_def)
  have z0: "x_dep ex_vec = Some [7, 8]" "int (length [7, 8 :: real]) = bsize ex_vec * ndep ex_deps"
    by (simp_all add: ex_vec_def ex_deps_def)
  have ptr: "ndep ex_deps < int (length (dep_ptr ex_deps))" by (simp add: ex_deps_def)
  have par: "\<forall>i jp. 0 \<le> i \<and> i < ndep ex_deps \<and>
                dep_ptr ex_deps ! nat i \<le> jp \<and> jp < dep_ptr ex_deps ! nat (i + 1) \<longrightarrow>
                0 \<le> jp \<and> jp < int (length (dep_conn ex_deps)) \<and>
                jp < int (length (dep_weights ex_deps)) \<and>
                parent_ok ex_vec 0 2 (dep_conn ex_deps ! nat jp)"
  proof (intro allI impI)
    fix i jp :: int
    assume h: "0 \<le> i \<and> i < ndep ex_deps \<and>
                dep_ptr ex_deps ! nat i \<le> jp \<and> jp < dep_ptr ex_deps ! nat (i + 1)"
    then have i: "i = 0" by (simp add: ex_deps_def)
    with h have "jp = 0 \<or> jp = 1" by (auto simp: ex_deps_def)
    then show "0 \<le> jp \<and> jp < int (length (dep_conn ex_deps)) \<and>
                jp < int (length (dep_weights ex_deps)) \<and>
                parent_ok ex_vec 0 2 (dep_conn ex_deps ! nat jp)"
      by (auto simp: ex_deps_def parent_ok_def ex_vec_def ex_indices_def)
  qed
  from endDistributeValues_dependents [OF fwd dn vm r lohi B z0 ptr par]
  obtain z' where z': "endDistributeValues ex_vec = Some (ex_vec\<lparr> x_dep := Some z' \<rparr>)"
    "length z' = length [7, 8 :: real]"
    "\<forall>i k. 0 \<le> i \<and> i < ndep ex_deps \<and> 0 \<le> k \<and> k < bsize ex_vec \<longrightarrow>
              z' ! nat (bsize ex_vec * i + k) =
                (\<Sum>jp\<leftarrow>[dep_ptr ex_deps ! nat i..dep_ptr ex_deps ! nat (i + 1) - 1].
                    dep_weights ex_deps ! nat jp *
                    parent_entry ex_vec 0 2 (dep_conn ex_deps ! nat jp) k)"
    "\<forall>zz. length zz = length [7, 8 :: real] \<longrightarrow>
              endDistributeValues (ex_vec\<lparr> x_dep := Some zz \<rparr>) = Some (ex_vec\<lparr> x_dep := Some z' \<rparr>)"
    by blast
  have up: "[0..1] = [0, 1 :: int]" by (simp add: upto.simps)
  from z'(3) [rule_format, of 0 0] have "z' ! 0 = 3"
    by (simp add: ex_deps_def ex_vec_def parent_entry_def ex_indices_def up)
  moreover from z'(3) [rule_format, of 0 1] have "z' ! 1 = 4"
    by (simp add: ex_deps_def ex_vec_def parent_entry_def ex_indices_def up)
  ultimately have "z' ! 0 = 3" "z' ! 1 = 4" by simp_all
  with z'(2) have "z' = [3, 4]"
    by (intro nth_equalityI) (auto simp: less_Suc_eq)
  with z'(1,4) show ?thesis by simp
qed

subsection \<open>Collapsing the dependent nodes\<close>

lemma added_fields [simp]:
  "bsize (added v f) = bsize v" "x_dep (added v f) = x_dep v"
  "ext_indices (added v f) = ext_indices v" "ext_dist (added v f) = ext_dist v"
  "var_map (added v f) = var_map v" "comm (added v f) = comm v"
  "dep_nodes (added v f) = dep_nodes v"
  "length (x_loc (added v f)) = length (x_loc v)"
  "map_option length (x_ext (added v f)) = map_option length (x_ext v)"
  by (simp_all add: added_def option.map_comp comp_def)

lemma added_zero: "added v (\<lambda>loc p. 0) = v"
proof -
  have "map_option (\<lambda>e. map ((!) e) [0..<length e]) (x_ext v) = x_ext v"
    by (cases "x_ext v") (simp_all add: map_nth)
  then show ?thesis by (simp add: added_def map_nth)
qed

lemma added_added: "added (added v f) g = added v (\<lambda>loc p. f loc p + g loc p)"
proof -
  have "map_option (\<lambda>e. map (\<lambda>p. e ! p + g False (int p)) [0..<length e])
          (map_option (\<lambda>e. map (\<lambda>p. e ! p + f False (int p)) [0..<length e]) (x_ext v))
        = map_option (\<lambda>e. map (\<lambda>p. e ! p + (f False (int p) + g False (int p))) [0..<length e])
            (x_ext v)"
    by (cases "x_ext v") (simp_all add: add.assoc)
  then show ?thesis by (simp add: added_def add.assoc)
qed

lemma added_cong: "(\<And>loc p. f loc p = g loc p) \<Longrightarrow> added v f = added v g"
  by (simp add: added_def)

lemma parent_ok_added [simp]: "parent_ok (added v f) lo hi c = parent_ok v lo hi c"
proof (cases "x_ext v")
  case None
  then show ?thesis by (simp add: parent_ok_def added_def split: option.splits)
next
  case (Some e)
  then show ?thesis by (simp add: parent_ok_def added_def split: option.splits)
qed

lemma dep_contrib_added [simp]:
  "dep_contrib (added v f) dn lo hi = dep_contrib v dn lo hi"
  by (simp add: dep_contrib_def parent_base_def fun_eq_iff Let_def cong: if_cong)

text \<open>The loop that adds a weighted block, position by position.\<close>

lemma blk_axpy_map:
  assumes "0 \<le> ti" "ti + b \<le> int (length t)" "0 \<le> si" "si + b \<le> int (length s)"
    and "0 \<le> jp" "jp < int (length weights)"
  shows "blk_axpy weights jp s si t ti b =
         Some (map (\<lambda>p. t ! p + (if ti \<le> int p \<and> int p < ti + b
                                   then weights ! nat jp * s ! nat (si + (int p - ti)) else 0))
                 [0..<length t])"
proof -
  from blk_axpy_ok [OF assms]
  obtain t' where t': "blk_axpy weights jp s si t ti b = Some t'" "length t' = length t"
    "\<forall>k. 0 \<le> k \<and> k < b \<longrightarrow>
              t' ! nat (ti + k) = t ! nat (ti + k) + weights ! nat jp * s ! nat (si + k)"
    "\<forall>p. 0 \<le> p \<and> \<not> (ti \<le> p \<and> p < ti + b) \<longrightarrow> t' ! nat p = t ! nat p"
    by blast
  have "t' = map (\<lambda>p. t ! p + (if ti \<le> int p \<and> int p < ti + b
                                   then weights ! nat jp * s ! nat (si + (int p - ti)) else 0))
                 [0..<length t]"
  proof (rule nth_equalityI)
    show "length t' = length (map (\<lambda>p. t ! p + (if ti \<le> int p \<and> int p < ti + b
                                   then weights ! nat jp * s ! nat (si + (int p - ti)) else 0))
                 [0..<length t])" using t'(2) by simp
  next
    fix p assume p: "p < length t'"
    show "t' ! p = map (\<lambda>p. t ! p + (if ti \<le> int p \<and> int p < ti + b
                                   then weights ! nat jp * s ! nat (si + (int p - ti)) else 0))
                 [0..<length t] ! p"
    proof (cases "ti \<le> int p \<and> int p < ti + b")
      case True
      then have "0 \<le> int p - ti \<and> int p - ti < b" by simp
      with t'(3) have "t' ! nat (ti + (int p - ti)) =
          t ! nat (ti + (int p - ti)) + weights ! nat jp * s ! nat (si + (int p - ti))" by blast
      then show ?thesis using True p t'(2) by simp
    next
      case False
      with t'(4) [rule_format, of "int p"] have "t' ! nat (int p) = t ! nat (int p)" by auto
      then show ?thesis using False p t'(2) by auto
    qed
  qed
  with t'(1) show ?thesis by simp
qed

lemma collapse_parent_ok:
  fixes w :: "'c TACSBVec"
  assumes r: "0 \<le> rank" "rank + 1 < int (length orange)"
    and lohi: "lo = orange ! nat rank" "hi = orange ! nat (rank + 1)"
    and B: "0 \<le> bsize w"
    and jp: "0 \<le> jp" "jp < int (length (dep_conn dn))" "jp < int (length (dep_weights dn))"
    and ok: "parent_ok w lo hi (dep_conn dn ! nat jp)"
    and z: "x_dep w = Some z"
    and zi: "zi = bsize w * i" "0 \<le> zi" "zi + bsize w \<le> int (length z)"
  shows "collapse_parent dn orange rank zi jp w =
         Some (added w (\<lambda>loc p. dep_contrib w dn lo hi loc p i jp))"
proof -
  let ?c = "dep_conn dn ! nat jp"
  have rdc: "rd (dep_conn dn) jp = Some ?c" using jp by (simp add: rd_def)
  have own: "owned orange rank ?c = Some (lo \<le> ?c \<and> ?c < hi)"
    using r lohi by (simp add: owned_Some)
  have rlo: "rd orange rank = Some lo" using r lohi by (simp add: rd_def)
  show ?thesis
  proof (cases "lo \<le> ?c \<and> ?c < hi")
    case True
    let ?xi = "bsize w * (?c - lo)"
    have b: "0 \<le> ?xi" "?xi + bsize w \<le> int (length (x_loc w))"
      using B True parent_ok_owned [OF True ok] by simp_all
    have run: "collapse_parent dn orange rank zi jp w =
          Some (w\<lparr> x_loc := map (\<lambda>p. x_loc w ! p +
                   (if ?xi \<le> int p \<and> int p < ?xi + bsize w
                    then dep_weights dn ! nat jp * z ! nat (zi + (int p - ?xi)) else 0))
                 [0..<length (x_loc w)] \<rparr>)"
      using rdc own rlo True z blk_axpy_map [OF b zi(2,3) jp(1,3)]
      by (simp add: collapse_parent_def)
    have loc: "\<And>p. dep_contrib w dn lo hi True p i jp =
                 (if ?xi \<le> p \<and> p < ?xi + bsize w
                  then dep_weights dn ! nat jp * z ! nat (zi + (p - ?xi)) else 0)"
      using True z zi(1) by (simp add: dep_contrib_def parent_base_def Let_def)
    have gho: "\<And>p. dep_contrib w dn lo hi False p i jp = 0"
      using True by (simp add: dep_contrib_def Let_def)
    have "map_option (\<lambda>e. map ((!) e) [0..<length e]) (x_ext w) = x_ext w"
      by (cases "x_ext w") (simp_all add: map_nth)
    then have "added w (\<lambda>loc p. dep_contrib w dn lo hi loc p i jp) =
          w\<lparr> x_loc := map (\<lambda>p. x_loc w ! p +
                   (if ?xi \<le> int p \<and> int p < ?xi + bsize w
                    then dep_weights dn ! nat jp * z ! nat (zi + (int p - ?xi)) else 0))
                 [0..<length (x_loc w)] \<rparr>"
      by (simp add: added_def loc gho)
    with run show ?thesis by simp
  next
    case False
    from parent_ok_ghost [OF False ok] obtain ind e where ie: "ext_indices w = Some ind"
      "x_ext w = Some e" "0 \<le> bsize w * findIndex ind ?c"
      "bsize w * findIndex ind ?c + bsize w \<le> int (length e)" by blast
    let ?xi = "bsize w * findIndex ind ?c"
    have run: "collapse_parent dn orange rank zi jp w =
          Some (w\<lparr> x_ext := Some (map (\<lambda>p. e ! p +
                   (if ?xi \<le> int p \<and> int p < ?xi + bsize w
                    then dep_weights dn ! nat jp * z ! nat (zi + (int p - ?xi)) else 0))
                 [0..<length e]) \<rparr>)"
      using rdc own False z ie(1,2) blk_axpy_map [OF ie(3,4) zi(2,3) jp(1,3)]
      by (auto simp: collapse_parent_def)
    have gho: "\<And>p. dep_contrib w dn lo hi False p i jp =
                 (if ?xi \<le> p \<and> p < ?xi + bsize w
                  then dep_weights dn ! nat jp * z ! nat (zi + (p - ?xi)) else 0)"
      using False z zi(1) ie(1) by (auto simp: dep_contrib_def parent_base_def Let_def)
    have loc: "\<And>p. dep_contrib w dn lo hi True p i jp = 0"
      using False by (auto simp: dep_contrib_def Let_def)
    have "added w (\<lambda>loc p. dep_contrib w dn lo hi loc p i jp) =
          w\<lparr> x_ext := Some (map (\<lambda>p. e ! p +
                   (if ?xi \<le> int p \<and> int p < ?xi + bsize w
                    then dep_weights dn ! nat jp * z ! nat (zi + (int p - ?xi)) else 0))
                 [0..<length e]) \<rparr>"
      by (simp add: added_def loc gho ie(2) map_nth)
    with run show ?thesis by simp
  qed
qed

text \<open>The loop over the parents of one dependent node.\<close>

lemma collapse_parents_ok:
  fixes w :: "'c TACSBVec"
  assumes r: "0 \<le> rank" "rank + 1 < int (length orange)"
    and lohi: "lo = orange ! nat rank" "hi = orange ! nat (rank + 1)"
    and B: "0 \<le> bsize w"
    and par: "\<forall>jp. jp0 \<le> jp \<and> jp < jp1 \<longrightarrow>
                0 \<le> jp \<and> jp < int (length (dep_conn dn)) \<and> jp < int (length (dep_weights dn)) \<and>
                parent_ok w lo hi (dep_conn dn ! nat jp)"
    and z: "x_dep w = Some z"
    and zi: "zi = bsize w * i" "0 \<le> zi" "zi + bsize w \<le> int (length z)"
  shows "for_loop jp0 jp1 (collapse_parent dn orange rank zi) w =
         Some (added w (\<lambda>loc p. \<Sum>jp\<leftarrow>[jp0..jp1 - 1]. dep_contrib w dn lo hi loc p i jp))"
proof -
  let ?F = "\<lambda>j loc p. \<Sum>jp\<leftarrow>[jp0..j - 1]. dep_contrib w dn lo hi loc p i jp"
  let ?I = "\<lambda>j u. u = added w (?F j)"
  have "\<exists>u. for_loop jp0 jp1 (collapse_parent dn orange rank zi) w = Some u \<and> ?I (max jp0 jp1) u"
  proof (rule for_loop_rule_any [where I = ?I])
    show "?I jp0 w" by (simp add: added_zero)
  next
    fix j u assume j: "jp0 \<le> j" "j < jp1" and I: "?I j u"
    from par j have pj: "0 \<le> j" "j < int (length (dep_conn dn))"
      "j < int (length (dep_weights dn))" "parent_ok w lo hi (dep_conn dn ! nat j)" by auto
    have "collapse_parent dn orange rank zi j u =
          Some (added u (\<lambda>loc p. dep_contrib u dn lo hi loc p i j))"
    proof (rule collapse_parent_ok [OF r lohi])
      show "0 \<le> bsize u" using B I by simp
      show "0 \<le> j" "j < int (length (dep_conn dn))" "j < int (length (dep_weights dn))"
        by (rule pj)+
      show "parent_ok u lo hi (dep_conn dn ! nat j)" using pj(4) I by simp
      show "x_dep u = Some z" using z I by simp
      show "zi = bsize u * i" "0 \<le> zi" "zi + bsize u \<le> int (length z)" using zi I by simp_all
    qed
    also have "added u (\<lambda>loc p. dep_contrib u dn lo hi loc p i j) =
               added w (\<lambda>loc p. ?F j loc p + dep_contrib w dn lo hi loc p i j)"
      using I by (simp add: added_added)
    also have "\<dots> = added w (?F (j + 1))"
      using upto_snoc [OF j(1)] by (intro added_cong) simp
    finally show "\<exists>t'. collapse_parent dn orange rank zi j u = Some t' \<and> ?I (j + 1) t'"
      by simp
  qed
  moreover have "[jp0..max jp0 jp1 - 1] = [jp0..jp1 - 1]" by (simp add: max_def)
  ultimately show ?thesis by simp
qed

lemma collapse_node_ok:
  fixes w :: "'c TACSBVec"
  assumes r: "0 \<le> rank" "rank + 1 < int (length orange)"
    and lohi: "lo = orange ! nat rank" "hi = orange ! nat (rank + 1)"
    and B: "0 \<le> bsize w"
    and i: "0 \<le> i" "i + 1 < int (length (dep_ptr dn))"
    and par: "\<forall>jp. dep_ptr dn ! nat i \<le> jp \<and> jp < dep_ptr dn ! nat (i + 1) \<longrightarrow>
                0 \<le> jp \<and> jp < int (length (dep_conn dn)) \<and> jp < int (length (dep_weights dn)) \<and>
                parent_ok w lo hi (dep_conn dn ! nat jp)"
    and z: "x_dep w = Some z"
    and zi: "zi = bsize w * i" "0 \<le> zi" "zi + bsize w \<le> int (length z)"
  shows "collapse_node dn orange rank i (w, zi) =
         Some (added w (\<lambda>loc p. \<Sum>jp\<leftarrow>[dep_ptr dn ! nat i..dep_ptr dn ! nat (i + 1) - 1].
                                    dep_contrib w dn lo hi loc p i jp),
               zi + bsize w)"
proof -
  have rds: "rd (dep_ptr dn) i = Some (dep_ptr dn ! nat i)"
    "rd (dep_ptr dn) (i + 1) = Some (dep_ptr dn ! nat (i + 1))"
    using i by (simp_all add: rd_def)
  show ?thesis
    using rds collapse_parents_ok [OF r lohi B par z zi]
    by (simp add: collapse_node_def)
qed

lemma collapse_dep_ok:
  fixes v :: "'c TACSBVec"
  assumes r: "0 \<le> rank" "rank + 1 < int (length orange)"
    and lohi: "lo = orange ! nat rank" "hi = orange ! nat (rank + 1)"
    and B: "0 \<le> bsize v"
    and z: "x_dep v = Some z" "int (length z) = bsize v * ndep dn"
    and ptr: "ndep dn < int (length (dep_ptr dn))"
    and par: "\<forall>i jp. 0 \<le> i \<and> i < ndep dn \<and>
                dep_ptr dn ! nat i \<le> jp \<and> jp < dep_ptr dn ! nat (i + 1) \<longrightarrow>
                0 \<le> jp \<and> jp < int (length (dep_conn dn)) \<and> jp < int (length (dep_weights dn)) \<and>
                parent_ok v lo hi (dep_conn dn ! nat jp)"
  shows "collapse_dep dn orange rank v = Some (collapsed v dn lo hi)"
proof -
  define n where "n = ndep dn"
  let ?S = "\<lambda>i loc p. \<Sum>jp\<leftarrow>[dep_ptr dn ! nat i..dep_ptr dn ! nat (i + 1) - 1].
                          dep_contrib v dn lo hi loc p i jp"
  let ?F = "\<lambda>i loc p. \<Sum>i'\<leftarrow>[0..i - 1]. ?S i' loc p"
  let ?L = "\<lambda>i (u :: 'c TACSBVec, zi). zi = bsize v * i \<and> u = added v (?F i)"
  have "\<exists>s'. for_loop 0 n (collapse_node dn orange rank) (v, 0) = Some s' \<and> ?L (max 0 n) s'"
  proof (rule for_loop_rule_any [where I = ?L])
    show "?L 0 (v, 0)" by (simp add: added_zero)
  next
    fix i :: int and t :: "'c TACSBVec \<times> int"
    assume i: "0 \<le> i" "i < n" and L: "?L i t"
    obtain u zi where t: "t = (u, zi)" by (cases t)
    from L t have u: "zi = bsize v * i" "u = added v (?F i)" by simp_all
    have zib: "0 \<le> zi" "zi + bsize v \<le> int (length z)"
      using blk_pos [of "bsize v" i n] i B u(1) z(2) by (simp_all add: n_def mult.commute)
    have "collapse_node dn orange rank i (u, zi) =
         Some (added u (\<lambda>loc p. \<Sum>jp\<leftarrow>[dep_ptr dn ! nat i..dep_ptr dn ! nat (i + 1) - 1].
                                    dep_contrib u dn lo hi loc p i jp),
               zi + bsize u)"
    proof (rule collapse_node_ok [OF r lohi])
      show "0 \<le> bsize u" using B u(2) by simp
      show "0 \<le> i" "i + 1 < int (length (dep_ptr dn))" using i ptr by (simp_all add: n_def)
      show "\<forall>jp. dep_ptr dn ! nat i \<le> jp \<and> jp < dep_ptr dn ! nat (i + 1) \<longrightarrow>
                0 \<le> jp \<and> jp < int (length (dep_conn dn)) \<and> jp < int (length (dep_weights dn)) \<and>
                parent_ok u lo hi (dep_conn dn ! nat jp)"
        using par i u(2) by (simp add: n_def)
      show "x_dep u = Some z" using z(1) u(2) by simp
      show "zi = bsize u * i" "0 \<le> zi" "zi + bsize u \<le> int (length z)"
        using u zib by simp_all
    qed
    also have "added u (\<lambda>loc p. \<Sum>jp\<leftarrow>[dep_ptr dn ! nat i..dep_ptr dn ! nat (i + 1) - 1].
                                    dep_contrib u dn lo hi loc p i jp) =
               added v (\<lambda>loc p. ?F i loc p + ?S i loc p)"
      using u(2) by (simp add: added_added)
    also have "\<dots> = added v (?F (i + 1))"
      using upto_snoc [OF i(1)] by (intro added_cong) simp
    finally have "collapse_node dn orange rank i (u, zi) = Some (added v (?F (i + 1)), zi + bsize u)" .
    moreover have "zi + bsize u = bsize v * (i + 1)" using u by (simp add: algebra_simps)
    ultimately show "\<exists>t'. collapse_node dn orange rank i t = Some t' \<and> ?L (i + 1) t'"
      using t by simp
  qed
  moreover have "[0..max 0 n - 1] = [0..n - 1]" by (simp add: max_def)
  moreover have "added v (?F n) = added v (dep_total v dn lo hi)"
    by (intro added_cong) (simp add: dep_total_def n_def)
  ultimately show ?thesis
    by (auto simp: collapse_dep_def collapsed_def n_def)
qed


lemma ex_collapsed:
  "collapsed ex_vec ex_deps 0 2 = ex_vec\<lparr> x_loc := [9 / 2, 6, 3, 4], x_ext := Some [17 / 2, 10] \<rparr>"
proof -
  have up: "[0..0] = [0 :: int]" "[0..1] = [0, 1 :: int]" by (simp_all add: upto.simps)
  have u4: "[0..<4] = [0, 1, 2, 3]" "[0..<2] = [0, 1]" by (simp_all add: upt_rec)
  show ?thesis
    by (simp add: collapsed_def added_def dep_total_def dep_contrib_def parent_base_def
        ex_vec_def ex_deps_def ex_indices_def up u4 Let_def)
qed


text \<open>
  C2: on a vector with a table of dependent nodes, \<open>beginSetValues\<close> with
  \<open>ADD_VALUES\<close> returns, and what it hands to the reverse exchange (and returns when
  there is no plan) is the vector \<open>collapsed v dn lo hi\<close>: for each dependent node
  \<open>i\<close>, each parent \<open>jp\<close> of it and each \<open>k\<close> below the block size,
  \<open>dep_weights[jp]\<cdot>dep[B\<cdot>i + k]\<close> has been added at entry \<open>k\<close> of the parent's block,
  in the owned values when the parent is owned and in the ghost values at
  \<open>B\<cdot>findIndex\<close> otherwise; nothing else is changed. With \<open>INSERT_VALUES\<close> the vector
  itself is handed over: the dependent values are not folded in. The hypotheses say
  that the accesses the source makes are inside the arrays.
\<close>

theorem beginSetValues_collapses_dependents:
  fixes v :: "'c TACSBVec"
  assumes vm: "var_map v = Some vm"
    and dn: "dep_nodes v = Some dn"
    and r: "0 \<le> comm_rank (comm v)" "comm_rank (comm v) + 1 < int (length (owner_range vm))"
    and lohi: "lo = owner_range vm ! nat (comm_rank (comm v))"
      "hi = owner_range vm ! nat (comm_rank (comm v) + 1)"
    and B: "0 \<le> bsize v"
    and z: "x_dep v = Some z" "int (length z) = bsize v * ndep dn"
    and ptr: "ndep dn < int (length (dep_ptr dn))"
    and par: "\<forall>i jp. 0 \<le> i \<and> i < ndep dn \<and>
                dep_ptr dn ! nat i \<le> jp \<and> jp < dep_ptr dn ! nat (i + 1) \<longrightarrow>
                0 \<le> jp \<and> jp < int (length (dep_conn dn)) \<and> jp < int (length (dep_weights dn)) \<and>
                parent_ok v lo hi (dep_conn dn ! nat jp)"
    and link: "ext_dist v \<noteq> None \<longrightarrow> ext_ctx v \<noteq> None \<and> x_ext v \<noteq> None"
  shows "(\<exists>v'. beginSetValues ADD_VALUES v = Some v' \<and>
            (case ext_dist v of
               Some d \<Rightarrow> call_reverse (beginReverse d) ADD_VALUES (collapsed v dn lo hi)
             | None \<Rightarrow> Some (collapsed v dn lo hi)) = Some v') \<and>
         (\<exists>v'. beginSetValues INSERT_VALUES v = Some v' \<and>
            (case ext_dist v of
               Some d \<Rightarrow> call_reverse (beginReverse d) INSERT_VALUES v
             | None \<Rightarrow> Some v) = Some v')"
proof -
  have c: "collapse_dep dn (owner_range vm) (comm_rank (comm v)) v = Some (collapsed v dn lo hi)"
    by (rule collapse_dep_ok [OF r lohi B z ptr par])
  have cf: "ext_dist (collapsed v dn lo hi) = ext_dist v"
    "ext_ctx (collapsed v dn lo hi) = ext_ctx v"
    "x_ext (collapsed v dn lo hi) = None \<longleftrightarrow> x_ext v = None"
    by (simp_all add: collapsed_def added_def)
  have add: "beginSetValues ADD_VALUES v =
            (case ext_dist v of
               Some d \<Rightarrow> call_reverse (beginReverse d) ADD_VALUES (collapsed v dn lo hi)
             | None \<Rightarrow> Some (collapsed v dn lo hi))"
    using vm dn c cf(1) by (simp add: beginSetValues_def)
  have ins: "beginSetValues INSERT_VALUES v =
            (case ext_dist v of
               Some d \<Rightarrow> call_reverse (beginReverse d) INSERT_VALUES v
             | None \<Rightarrow> Some v)"
    using vm dn by (simp add: beginSetValues_def)
  have some: "\<exists>v'. (case ext_dist v of Some d \<Rightarrow> call_reverse (beginReverse d) op u
             | None \<Rightarrow> Some u) = Some v'"
    if "ext_ctx u = ext_ctx v" "x_ext u = None \<longleftrightarrow> x_ext v = None" for u op
    using link that
    by (cases "ext_dist v"; cases "ext_ctx u"; cases "x_ext u")
       (auto simp: call_reverse_def split: prod.splits)
  from some [of "collapsed v dn lo hi" ADD_VALUES] some [of v INSERT_VALUES] cf add ins
  show ?thesis by auto
qed

theorem beginSetValues_collapses_dependents_witness:
  "beginSetValues ADD_VALUES ex_vec =
     Some (ex_vec\<lparr> x_loc := [9 / 2, 6, 3, 4], x_ext := Some [17 / 2, 10] \<rparr>) \<and>
   beginSetValues INSERT_VALUES ex_vec = Some ex_vec"
proof -
  have dn: "dep_nodes ex_vec = Some ex_deps" and vm: "var_map ex_vec = Some ex_map"
    by (simp_all add: ex_vec_def)
  have r: "0 \<le> comm_rank (comm ex_vec)"
    "comm_rank (comm ex_vec) + 1 < int (length (owner_range ex_map))"
    by (simp_all add: ex_vec_def ex_map_def)
  have lohi: "0 = owner_range ex_map ! nat (comm_rank (comm ex_vec))"
    "2 = owner_range ex_map ! nat (comm_rank (comm ex_vec) + 1)"
    by (simp_all add: ex_vec_def ex_map_def)
  have B: "0 \<le> bsize ex_vec" by (simp add: ex_vec_def)
  have z: "x_dep ex_vec = Some [7, 8]" "int (length [7, 8 :: real]) = bsize ex_vec * ndep ex_deps"
    by (simp_all add: ex_vec_def ex_deps_def)
  have ptr: "ndep ex_deps < int (length (dep_ptr ex_deps))" by (simp add: ex_deps_def)
  have par: "\<forall>i jp. 0 \<le> i \<and> i < ndep ex_deps \<and>
                dep_ptr ex_deps ! nat i \<le> jp \<and> jp < dep_ptr ex_deps ! nat (i + 1) \<longrightarrow>
                0 \<le> jp \<and> jp < int (length (dep_conn ex_deps)) \<and>
                jp < int (length (dep_weights ex_deps)) \<and>
                parent_ok ex_vec 0 2 (dep_conn ex_deps ! nat jp)"
  proof (intro allI impI)
    fix i jp :: int
    assume h: "0 \<le> i \<and> i < ndep ex_deps \<and>
                dep_ptr ex_deps ! nat i \<le> jp \<and> jp < dep_ptr ex_deps ! nat (i + 1)"
    then have i: "i = 0" by (simp add: ex_deps_def)
    with h have "jp = 0 \<or> jp = 1" by (auto simp: ex_deps_def)
    then show "0 \<le> jp \<and> jp < int (length (dep_conn ex_deps)) \<and>
                jp < int (length (dep_weights ex_deps)) \<and>
                parent_ok ex_vec 0 2 (dep_conn ex_deps ! nat jp)"
      by (auto simp: ex_deps_def parent_ok_def ex_vec_def ex_indices_def)
  qed
  have link: "ext_dist ex_vec \<noteq> None \<longrightarrow> ext_ctx ex_vec \<noteq> None \<and> x_ext ex_vec \<noteq> None"
    by (simp add: ex_vec_def)
  have d: "ext_dist ex_vec = Some ex_dist" by (simp add: ex_vec_def)
  have rev: "call_reverse (beginReverse ex_dist) ADD_VALUES
               (ex_vec\<lparr> x_loc := [9 / 2, 6, 3, 4], x_ext := Some [17 / 2, 10] \<rparr>) =
             Some (ex_vec\<lparr> x_loc := [9 / 2, 6, 3, 4], x_ext := Some [17 / 2, 10] \<rparr>)"
    "call_reverse (beginReverse ex_dist) INSERT_VALUES ex_vec = Some ex_vec"
    by (simp_all add: call_reverse_def ex_dist_def ex_vec_def in_place_def map_nth)
  from beginSetValues_collapses_dependents [OF vm dn r lohi B z ptr par link]
  show ?thesis by (simp add: d ex_collapsed rev)
qed

end
